theory Spec2Isabelle
  imports Main "HOL-Library.AList"
begin

section \<open>Data model of the module system\<close>

text \<open>
  The module system (\<^verbatim>\<open>services/moduleSystem.js\<close>) keeps a JavaScript \<^verbatim>\<open>Map\<close> of
  module descriptors, a \<^verbatim>\<open>Map\<close> of per-module states and a \<^verbatim>\<open>Set\<close> of loaded ids.
  Both containers iterate in insertion order, so the maps are association lists
  (\<^verbatim>\<open>Map.set\<close> is \<open>AList.update\<close>: an existing key keeps its position, a new key goes
  to the end; \<^verbatim>\<open>Map.delete\<close> is \<open>AList.delete\<close>) and the set is a list without
  repetitions.
\<close>

type_synonym module_id = string

datatype json =
    JNull
  | JBool bool
  | JNum int
  | JStr string
  | JArr "json list"
  | JObj "(string \<times> json) list"

text \<open>
  The three status strings the code writes: \<^verbatim>\<open>'registered'\<close>, \<^verbatim>\<open>'loaded'\<close>,
  \<^verbatim>\<open>'unloaded'\<close>.
\<close>

datatype status = Registered | Loaded | Unloaded

text \<open>
  A lifecycle hook is a caller-supplied function. The model keeps what the module system
  can observe of it: whether the property is falsy (\<^verbatim>\<open>if (module.init)\<close> skips the call)
  and, when it is a function, whether the awaited call returns or throws. Hooks and event
  listeners are taken not to call back into the module system.
\<close>

datatype outcome = Returns | Throws

datatype hook = Falsy | Fn outcome

record module_rec =
  mid :: module_id
  name :: "string option"
  version :: "string option"
  dependencies :: "module_id list"
  exports :: json
  init :: hook
  destroy :: hook
  update :: hook
  config :: json
  state :: status
  lastUpdated :: int

text \<open>
  A configuration object as passed to \<^verbatim>\<open>registerModule\<close> and \<^verbatim>\<open>hotSwapModule\<close>:
  every property may be absent (\<open>None\<close>).
\<close>

record module_config =
  c_id :: "module_id option"
  c_name :: "string option"
  c_version :: "string option"
  c_dependencies :: "module_id list option"
  c_exports :: "json option"
  c_init :: "hook option"
  c_destroy :: "hook option"
  c_update :: "hook option"
  c_config :: "json option"
  c_state :: "status option"
  c_lastUpdated :: "int option"

text \<open>
  Observable effects: every hook invocation and every \<^verbatim>\<open>emit\<close> is appended to a log.
  A hook is identified by the key of the module it belongs to.
\<close>

datatype event =
    InitCalled module_id
  | DestroyCalled module_id
  | UpdateCalled module_id module_rec module_rec
  | ModuleLoaded module_id module_rec
  | ModuleUnloaded module_id module_rec
  | ModuleUpdated module_id module_rec module_rec
  | SystemRestart

datatype error =
    NotFound module_id
  | CircularDependency module_id module_id
  | CircularDependencyAt module_id
  | CannotUnload module_id "module_id list"
  | NotLoaded module_id
  | HookThrew module_id
  | TypeError

record module_system =
  modules :: "(module_id \<times> module_rec) list"
  moduleStates :: "(module_id \<times> status) list"
  loadedModules :: "module_id list"
  log :: "event list"

definition set_add :: "'a \<Rightarrow> 'a list \<Rightarrow> 'a list" where
  "set_add x xs = (if x \<in> set xs then xs else xs @ [x])"

definition set_delete :: "'a \<Rightarrow> 'a list \<Rightarrow> 'a list" where
  "set_delete x xs = removeAll x xs"

definition emit :: "event \<Rightarrow> module_system \<Rightarrow> module_system" where
  "emit e s = s\<lparr>log := log s @ [e]\<rparr>"

section \<open>Dependency resolver\<close>

text \<open>
  \<^verbatim>\<open>this.modules.get(id)\<close> followed by \<^verbatim>\<open>if (m) for (const d of m.dependencies)\<close>:
  an unregistered id has nothing to iterate over.
\<close>

definition deps_of :: "(module_id \<times> module_rec) list \<Rightarrow> module_id \<Rightarrow> module_id list" where
  "deps_of ms i = (case map_of ms i of None \<Rightarrow> [] | Some m \<Rightarrow> dependencies m)"

lemma deps_of_unregistered: "i \<notin> fst ` set ms \<Longrightarrow> deps_of ms i = []"
proof -
  assume "i \<notin> fst ` set ms"
  then have "map_of ms i = None" by (simp add: map_of_eq_None_iff)
  then show ?thesis by (simp add: deps_of_def)
qed

text \<open>
  \<^verbatim>\<open>getDependencyOrder\<close>: the inner function \<^verbatim>\<open>visit\<close> and the loops over a dependency
  list. \<^verbatim>\<open>visiting\<close> is added to on entry and deleted from on exit, and a throw abandons
  the whole computation, so at every call it is the set of ids on the recursion stack;
  it is passed down as an argument. \<^verbatim>\<open>visited\<close> and \<^verbatim>\<open>order\<close> are threaded through.
\<close>

function visit ::
    "(module_id \<times> module_rec) list \<Rightarrow> module_id set \<Rightarrow> module_id \<Rightarrow>
     module_id set \<times> module_id list \<Rightarrow> error + (module_id set \<times> module_id list)"
  and visit_each ::
    "(module_id \<times> module_rec) list \<Rightarrow> module_id set \<Rightarrow> module_id list \<Rightarrow>
     module_id set \<times> module_id list \<Rightarrow> error + (module_id set \<times> module_id list)"
where
  "visit ms visiting depId (visited, order) =
     (if depId \<in> visiting then Inl (CircularDependencyAt depId)
      else if depId \<in> visited then Inr (visited, order)
      else (case visit_each ms (insert depId visiting) (deps_of ms depId) (visited, order) of
              Inl e \<Rightarrow> Inl e
            | Inr (visited', order') \<Rightarrow> Inr (insert depId visited', order' @ [depId])))"
| "visit_each ms visiting [] st = Inr st"
| "visit_each ms visiting (d # ds) st =
     (case visit ms visiting d st of
        Inl e \<Rightarrow> Inl e
      | Inr st' \<Rightarrow> visit_each ms visiting ds st')"
  by pat_completeness auto

termination
proof (relation "measures
    [\<lambda>x. case x of Inl (ms, vg, d, st) \<Rightarrow> card (fst ` set ms - vg)
                 | Inr (ms, vg, ds, st) \<Rightarrow> card (fst ` set ms - vg),
     \<lambda>x. case x of Inl (ms, vg, d, st) \<Rightarrow> 1
                 | Inr (ms, vg, ds, st) \<Rightarrow> 2 * length ds]", goal_cases)
  case 1
  show ?case by simp
next
  case (2 ms visiting depId visited order)
  show ?case
  proof (cases "depId \<in> fst ` set ms")
    case True
    have "fst ` set ms - insert depId visiting \<subset> fst ` set ms - visiting"
      using True 2 by auto
    then have "card (fst ` set ms - insert depId visiting) < card (fst ` set ms - visiting)"
      by (intro psubset_card_mono) auto
    then show ?thesis by simp
  next
    case False
    then have "fst ` set ms - insert depId visiting = fst ` set ms - visiting"
      by auto
    then show ?thesis using False by (simp add: deps_of_unregistered)
  qed
next
  case 3
  show ?case by simp
next
  case 4
  show ?case by simp
qed

definition getDependencyOrder ::
    "(module_id \<times> module_rec) list \<Rightarrow> module_id list \<Rightarrow> error + module_id list" where
  "getDependencyOrder ms deps =
     (case visit_each ms {} deps ({}, []) of
        Inl e \<Rightarrow> Inl e
      | Inr (visited, order) \<Rightarrow> Inr order)"


text \<open>
  \<^verbatim>\<open>checkCircular(currentId, targetId)\<close>, the inner function of
  \<^verbatim>\<open>checkDependencies\<close>, and its loop over \<^verbatim>\<open>currentModule.dependencies\<close> (which runs
  after \<^verbatim>\<open>visiting.add(currentId)\<close>, so it receives the enlarged set). Again
  \<^verbatim>\<open>visiting\<close> is the recursion stack and \<^verbatim>\<open>visited\<close> is threaded through.
\<close>

function checkCircular ::
    "(module_id \<times> module_rec) list \<Rightarrow> module_id set \<Rightarrow> module_id \<Rightarrow> module_id \<Rightarrow>
     module_id set \<Rightarrow> error + module_id set"
  and checkCircular_deps ::
    "(module_id \<times> module_rec) list \<Rightarrow> module_id set \<Rightarrow> module_id \<Rightarrow> module_id \<Rightarrow>
     module_id list \<Rightarrow> module_id set \<Rightarrow> error + module_id set"
where
  "checkCircular ms visiting currentId targetId visited =
     (if currentId \<in> visiting then Inl (CircularDependency currentId targetId)
      else if currentId \<in> visited then Inr visited
      else (case checkCircular_deps ms (insert currentId visiting) currentId targetId
                   (deps_of ms currentId) visited of
              Inl e \<Rightarrow> Inl e
            | Inr visited' \<Rightarrow> Inr (insert currentId visited')))"
| "checkCircular_deps ms visiting currentId targetId [] visited = Inr visited"
| "checkCircular_deps ms visiting currentId targetId (depId # rest) visited =
     (if depId = targetId then Inl (CircularDependency currentId depId)
      else (case checkCircular ms visiting depId targetId visited of
              Inl e \<Rightarrow> Inl e
            | Inr visited' \<Rightarrow> checkCircular_deps ms visiting currentId targetId rest visited'))"
  by pat_completeness auto

termination
proof (relation "measures
    [\<lambda>x. case x of Inl (ms, vg, c, t, vd) \<Rightarrow> card (fst ` set ms - vg)
                 | Inr (ms, vg, c, t, ds, vd) \<Rightarrow> card (fst ` set ms - vg),
     \<lambda>x. case x of Inl (ms, vg, c, t, vd) \<Rightarrow> 1
                 | Inr (ms, vg, c, t, ds, vd) \<Rightarrow> 2 * length ds]", goal_cases)
  case 1
  show ?case by simp
next
  case (2 ms visiting currentId targetId visited)
  show ?case
  proof (cases "currentId \<in> fst ` set ms")
    case True
    have "fst ` set ms - insert currentId visiting \<subset> fst ` set ms - visiting"
      using True 2 by auto
    then have "card (fst ` set ms - insert currentId visiting) < card (fst ` set ms - visiting)"
      by (intro psubset_card_mono) auto
    then show ?thesis by simp
  next
    case False
    then have "fst ` set ms - insert currentId visiting = fst ` set ms - visiting"
      by auto
    then show ?thesis using False by (simp add: deps_of_unregistered)
  qed
next
  case 3
  show ?case by simp
next
  case 4
  show ?case by simp
qed

text \<open>\<^verbatim>\<open>getDependents\<close>: the keys of all registered modules that list the id.\<close>

definition getDependents :: "(module_id \<times> module_rec) list \<Rightarrow> module_id \<Rightarrow> module_id list" where
  "getDependents ms moduleId =
     map fst (filter (\<lambda>(i, m). moduleId \<in> set (dependencies m)) ms)"

section \<open>Registry and lifecycle operations\<close>

text \<open>
  \<^verbatim>\<open>x || d\<close> on a hook property: anything but a function counts as missing here, and
  the default is the empty function, which returns.
\<close>

definition hook_or_default :: "hook option \<Rightarrow> hook" where
  "hook_or_default h = (case h of Some (Fn r) \<Rightarrow> Fn r | _ \<Rightarrow> Fn Returns)"

fun falsy :: "json \<Rightarrow> bool" where
  "falsy JNull = True"
| "falsy (JBool b) = (\<not> b)"
| "falsy (JNum n) = (n = 0)"
| "falsy (JStr t) = (t = [])"
| "falsy _ = False"

definition json_or_default :: "json option \<Rightarrow> json" where
  "json_or_default j = (case j of None \<Rightarrow> JObj [] | Some v \<Rightarrow> if falsy v then JObj [] else v)"

text \<open>
  \<^verbatim>\<open>registerModule(moduleId, moduleConfig)\<close>. \<open>now\<close> is the value of \<^verbatim>\<open>Date.now()\<close>.
  The function has no failing branch: it builds the descriptor and stores it.
\<close>

definition registerModule ::
    "module_system \<Rightarrow> int \<Rightarrow> module_id \<Rightarrow> module_config \<Rightarrow> module_rec \<times> module_system" where
  "registerModule s now moduleId moduleConfig =
     (let module = \<lparr>
            mid = moduleId,
            name = c_name moduleConfig,
            version = c_version moduleConfig,
            dependencies = (case c_dependencies moduleConfig of None \<Rightarrow> [] | Some ds \<Rightarrow> ds),
            exports = json_or_default (c_exports moduleConfig),
            init = hook_or_default (c_init moduleConfig),
            destroy = hook_or_default (c_destroy moduleConfig),
            update = hook_or_default (c_update moduleConfig),
            config = json_or_default (c_config moduleConfig),
            state = Registered,
            lastUpdated = now \<rparr>
      in (module,
          s\<lparr>modules := AList.update moduleId module (modules s),
            moduleStates := AList.update moduleId Registered (moduleStates s)\<rparr>))"

text \<open>
  \<^verbatim>\<open>if (module.h) await module.h(...)\<close>: a falsy property is skipped; a call is logged,
  and a throwing hook makes the caller's \<^verbatim>\<open>catch\<close> rethrow.
\<close>

definition call_hook ::
    "hook \<Rightarrow> event \<Rightarrow> error \<Rightarrow> module_system \<Rightarrow> (error + unit) \<times> module_system" where
  "call_hook h ev err s =
     (case h of
        Falsy \<Rightarrow> (Inr (), s)
      | Fn Returns \<Rightarrow> (Inr (), emit ev s)
      | Fn Throws \<Rightarrow> (Inl err, emit ev s))"

text \<open>
  \<^verbatim>\<open>loadModule\<close>, \<^verbatim>\<open>checkDependencies\<close> and the loop over the dependency order call
  each other. The recursion depth is bounded by a fuel argument; \<open>None\<close> means the fuel
  ran out. A thrown error leaves the state as it is at the throw (nothing is rolled
  back), so every result carries the state.

  \<^verbatim>\<open>module\<close> is the object read from the map at the start of \<^verbatim>\<open>loadModule\<close>; the
  dependency loads write only the \<^verbatim>\<open>state\<close> property of objects, which is overwritten
  below, so the record read at the start stands for the object throughout.
\<close>

fun loadModule ::
    "nat \<Rightarrow> module_system \<Rightarrow> module_id \<Rightarrow> ((error + module_rec) \<times> module_system) option"
  and checkDependencies ::
    "nat \<Rightarrow> module_system \<Rightarrow> module_id \<Rightarrow> ((error + unit) \<times> module_system) option"
  and load_each ::
    "nat \<Rightarrow> module_system \<Rightarrow> module_id list \<Rightarrow> ((error + unit) \<times> module_system) option"
where
  "loadModule 0 s moduleId = None"
| "loadModule (Suc n) s moduleId =
     (case map_of (modules s) moduleId of
        None \<Rightarrow> Some (Inl (NotFound moduleId), s)
      | Some module \<Rightarrow>
          if moduleId \<in> set (loadedModules s) then Some (Inr module, s)
          else (case checkDependencies n s moduleId of
                  None \<Rightarrow> None
                | Some (Inl e, s1) \<Rightarrow> Some (Inl e, s1)
                | Some (Inr u, s1) \<Rightarrow>
                    (case call_hook (init module) (InitCalled moduleId) (HookThrew moduleId) s1 of
                       (Inl e, s2) \<Rightarrow> Some (Inl e, s2)
                     | (Inr u', s2) \<Rightarrow>
                         (let module' = module\<lparr>state := Loaded\<rparr>;
                              s3 = s2\<lparr>loadedModules := set_add moduleId (loadedModules s2),
                                      moduleStates := AList.update moduleId Loaded (moduleStates s2),
                                      modules := AList.update moduleId module' (modules s2)\<rparr>
                          in Some (Inr module', emit (ModuleLoaded moduleId module') s3)))))"
| "checkDependencies n s moduleId =
     (case map_of (modules s) moduleId of
        None \<Rightarrow> Some (Inr (), s)
      | Some module \<Rightarrow>
          (case checkCircular (modules s) {} moduleId moduleId {} of
             Inl e \<Rightarrow> Some (Inl e, s)
           | Inr visited \<Rightarrow>
               (case getDependencyOrder (modules s) (dependencies module) of
                  Inl e \<Rightarrow> Some (Inl e, s)
                | Inr dependencyOrder \<Rightarrow> load_each n s dependencyOrder)))"
| "load_each n s [] = Some (Inr (), s)"
| "load_each n s (depId # rest) =
     (if depId \<in> set (loadedModules s) then load_each n s rest
      else (case loadModule n s depId of
              None \<Rightarrow> None
            | Some (Inl e, s') \<Rightarrow> Some (Inl e, s')
            | Some (Inr m, s') \<Rightarrow> load_each n s' rest))"

text \<open>\<^verbatim>\<open>unloadModule(moduleId)\<close>.\<close>

definition unloadModule :: "module_system \<Rightarrow> module_id \<Rightarrow> (error + unit) \<times> module_system" where
  "unloadModule s moduleId =
     (case map_of (modules s) moduleId of
        None \<Rightarrow> (Inl (NotFound moduleId), s)
      | Some module \<Rightarrow>
          if moduleId \<notin> set (loadedModules s) then (Inr (), s)
          else (let dependents = getDependents (modules s) moduleId in
                if dependents \<noteq> [] then (Inl (CannotUnload moduleId dependents), s)
                else (case call_hook (destroy module) (DestroyCalled moduleId)
                             (HookThrew moduleId) s of
                        (Inl e, s1) \<Rightarrow> (Inl e, s1)
                      | (Inr u, s1) \<Rightarrow>
                          (let module' = module\<lparr>state := Unloaded\<rparr>;
                               s2 = s1\<lparr>loadedModules := set_delete moduleId (loadedModules s1),
                                       moduleStates :=
                                         AList.update moduleId Unloaded (moduleStates s1),
                                       modules := AList.update moduleId module' (modules s1)\<rparr>
                           in (Inr (), emit (ModuleUnloaded moduleId module') s2)))))"

text \<open>
  \<^verbatim>\<open>Object.assign(module, newModuleConfig)\<close>: every property present in the source
  object overwrites the target's, \<^verbatim>\<open>id\<close>, \<^verbatim>\<open>state\<close> and the hooks included.
\<close>

definition assign :: "module_rec \<Rightarrow> module_config \<Rightarrow> module_rec" where
  "assign m c =
     \<lparr> mid = (case c_id c of None \<Rightarrow> mid m | Some v \<Rightarrow> v),
       name = (case c_name c of None \<Rightarrow> name m | Some v \<Rightarrow> Some v),
       version = (case c_version c of None \<Rightarrow> version m | Some v \<Rightarrow> Some v),
       dependencies = (case c_dependencies c of None \<Rightarrow> dependencies m | Some v \<Rightarrow> v),
       exports = (case c_exports c of None \<Rightarrow> exports m | Some v \<Rightarrow> v),
       init = (case c_init c of None \<Rightarrow> init m | Some v \<Rightarrow> v),
       destroy = (case c_destroy c of None \<Rightarrow> destroy m | Some v \<Rightarrow> v),
       update = (case c_update c of None \<Rightarrow> update m | Some v \<Rightarrow> v),
       config = (case c_config c of None \<Rightarrow> config m | Some v \<Rightarrow> v),
       state = (case c_state c of None \<Rightarrow> state m | Some v \<Rightarrow> v),
       lastUpdated = (case c_lastUpdated c of None \<Rightarrow> lastUpdated m | Some v \<Rightarrow> v) \<rparr>"

text \<open>
  \<^verbatim>\<open>hotSwapModule(moduleId, newModuleConfig)\<close>. \<^verbatim>\<open>oldModule\<close> is a copy taken before
  the merge; the merge mutates the registered object in place, so it stays when the
  update hook throws.
\<close>

definition hotSwapModule ::
    "module_system \<Rightarrow> int \<Rightarrow> module_id \<Rightarrow> module_config \<Rightarrow>
     (error + module_rec) \<times> module_system" where
  "hotSwapModule s now moduleId newModuleConfig =
     (case map_of (modules s) moduleId of
        None \<Rightarrow> (Inl (NotFound moduleId), s)
      | Some module \<Rightarrow>
          if moduleId \<notin> set (loadedModules s) then (Inl (NotLoaded moduleId), s)
          else (let oldModule = module;
                    module' = (assign module newModuleConfig)\<lparr>lastUpdated := now\<rparr>;
                    s1 = s\<lparr>modules := AList.update moduleId module' (modules s)\<rparr>
                in (case call_hook (update module') (UpdateCalled moduleId oldModule module')
                            (HookThrew moduleId) s1 of
                      (Inl e, s2) \<Rightarrow> (Inl e, s2)
                    | (Inr u, s2) \<Rightarrow>
                        (Inr module', emit (ModuleUpdated moduleId oldModule module') s2))))"


text \<open>
  The payload of a \<^verbatim>\<open>module_install\<close>, \<^verbatim>\<open>module_uninstall\<close> or \<^verbatim>\<open>module_reload\<close>
  message. \<^verbatim>\<open>moduleConfig\<close> may be missing (the server's reload broadcast carries
  none); \<^verbatim>\<open>registerModule\<close> then throws a \<^verbatim>\<open>TypeError\<close> on reading
  \<^verbatim>\<open>moduleConfig.name\<close>.
\<close>

record message_data =
  d_moduleId :: module_id
  d_moduleConfig :: "module_config option"

definition handleModuleInstall ::
    "nat \<Rightarrow> module_system \<Rightarrow> int \<Rightarrow> message_data \<Rightarrow>
     ((error + unit) \<times> module_system) option" where
  "handleModuleInstall n s now data =
     (case d_moduleConfig data of
        None \<Rightarrow> Some (Inl TypeError, s)
      | Some moduleConfig \<Rightarrow>
          (case loadModule n (snd (registerModule s now (d_moduleId data) moduleConfig))
                  (d_moduleId data) of
             None \<Rightarrow> None
           | Some (Inl e, s') \<Rightarrow> Some (Inl e, s')
           | Some (Inr m, s') \<Rightarrow> Some (Inr (), s')))"

definition handleModuleUninstall ::
    "module_system \<Rightarrow> message_data \<Rightarrow> (error + unit) \<times> module_system" where
  "handleModuleUninstall s data =
     (case unloadModule s (d_moduleId data) of
        (Inl e, s1) \<Rightarrow> (Inl e, s1)
      | (Inr u, s1) \<Rightarrow>
          (Inr (), s1\<lparr>modules := AList.delete (d_moduleId data) (modules s1),
                     moduleStates := AList.delete (d_moduleId data) (moduleStates s1)\<rparr>))"

definition handleModuleReload ::
    "nat \<Rightarrow> module_system \<Rightarrow> int \<Rightarrow> message_data \<Rightarrow>
     ((error + unit) \<times> module_system) option" where
  "handleModuleReload n s now data =
     (let moduleId = d_moduleId data;
          wasLoaded = (moduleId \<in> set (loadedModules s))
      in (case (if wasLoaded then unloadModule s moduleId else (Inr (), s)) of
            (Inl e, s1) \<Rightarrow> Some (Inl e, s1)
          | (Inr u, s1) \<Rightarrow>
              (case d_moduleConfig data of
                 None \<Rightarrow> Some (Inl TypeError, s1)
               | Some moduleConfig \<Rightarrow>
                   (let s2 = snd (registerModule s1 now moduleId moduleConfig)
                    in if wasLoaded
                       then (case loadModule n s2 moduleId of
                               None \<Rightarrow> None
                             | Some (Inl e, s3) \<Rightarrow> Some (Inl e, s3)
                             | Some (Inr m, s3) \<Rightarrow> Some (Inr (), s3))
                       else Some (Inr (), s2)))))"

text \<open>
  \<^verbatim>\<open>restartSystem\<close>. The loop iterates the live \<^verbatim>\<open>loadedModules\<close> set; the only
  element an iteration can remove is the current one, so the ids visited are those of the
  set at the start, in insertion order. The \<^verbatim>\<open>catch\<close> swallows the error of a failed
  unload and keeps the state it left.
\<close>

fun unload_all :: "module_system \<Rightarrow> module_id list \<Rightarrow> module_system" where
  "unload_all s [] = s"
| "unload_all s (moduleId # rest) = unload_all (snd (unloadModule s moduleId)) rest"

definition restartSystem :: "module_system \<Rightarrow> module_system" where
  "restartSystem s =
     emit SystemRestart
       ((unload_all s (loadedModules s))\<lparr>modules := [], moduleStates := [], loadedModules := []\<rparr>)"

section \<open>State store\<close>

text \<open>
  \<^verbatim>\<open>services/moduleStatePersistence.js\<close> over IndexedDB: the object store
  \<^verbatim>\<open>moduleStates\<close> is keyed by \<^verbatim>\<open>moduleId\<close> (\<^verbatim>\<open>put\<close> replaces), the object store
  \<^verbatim>\<open>stateHistory\<close> has an auto-incremented key (\<^verbatim>\<open>add\<close> appends under the next
  value of the store's key generator). The requests of the transaction are taken to
  succeed.
\<close>

record state_record =
  r_moduleId :: module_id
  r_state :: json
  r_timestamp :: int
  r_version :: string
  r_metadata :: json

record database =
  moduleStates_store :: "(module_id \<times> state_record) list"
  stateHistory_store :: "(nat \<times> state_record) list"
  stateHistory_keygen :: nat

record persistence =
  db :: "database option"

record save_options =
  o_version :: "string option"
  o_metadata :: "json option"

datatype store_error = DatabaseNotInitialized

text \<open>
  \<^verbatim>\<open>JSON.parse(JSON.stringify(state))\<close> ("deep clone"): on a JSON value, a fresh copy
  built constructor by constructor.
\<close>

fun json_clone :: "json \<Rightarrow> json" where
  "json_clone JNull = JNull"
| "json_clone (JBool b) = JBool b"
| "json_clone (JNum n) = JNum n"
| "json_clone (JStr t) = JStr t"
| "json_clone (JArr xs) = JArr (map json_clone xs)"
| "json_clone (JObj kvs) = JObj (map (\<lambda>(k, v). (k, json_clone v)) kvs)"

definition saveModuleState ::
    "persistence \<Rightarrow> int \<Rightarrow> module_id \<Rightarrow> json \<Rightarrow> save_options \<Rightarrow>
     store_error + (state_record \<times> persistence)" where
  "saveModuleState p now moduleId st options =
     (case db p of
        None \<Rightarrow> Inl DatabaseNotInitialized
      | Some d \<Rightarrow>
          (let stateData = \<lparr>
                 r_moduleId = moduleId,
                 r_state = json_clone st,
                 r_timestamp = now,
                 r_version = (case o_version options of
                                None \<Rightarrow> ''1.0.0''
                              | Some v \<Rightarrow> if v = [] then ''1.0.0'' else v),
                 r_metadata = json_or_default (o_metadata options) \<rparr>;
               historyData = \<lparr>
                 r_moduleId = moduleId,
                 r_state = r_state stateData,
                 r_timestamp = r_timestamp stateData,
                 r_version = r_version stateData,
                 r_metadata = r_metadata stateData \<rparr>;
               d' = d\<lparr>moduleStates_store := AList.update moduleId stateData (moduleStates_store d),
                      stateHistory_store :=
                        stateHistory_store d @ [(Suc (stateHistory_keygen d), historyData)],
                      stateHistory_keygen := Suc (stateHistory_keygen d)\<rparr>
           in Inr (stateData, p\<lparr>db := Some d'\<rparr>)))"

text \<open>
  \<^verbatim>\<open>loadModuleState(moduleId, version = null)\<close>; the result \<^verbatim>\<open>null\<close> is \<open>JNull\<close>.
\<close>

definition loadModuleState ::
    "persistence \<Rightarrow> module_id \<Rightarrow> string option \<Rightarrow> store_error + json" where
  "loadModuleState p moduleId version' =
     (case db p of
        None \<Rightarrow> Inl DatabaseNotInitialized
      | Some d \<Rightarrow>
          (case map_of (moduleStates_store d) moduleId of
             None \<Rightarrow> Inr JNull
           | Some result \<Rightarrow>
               (case version' of
                  None \<Rightarrow> Inr (r_state result)
                | Some v \<Rightarrow>
                    if v \<noteq> [] \<and> r_version result \<noteq> v then Inr JNull
                    else Inr (r_state result))))"

text \<open>
  \<^verbatim>\<open>getModuleStateHistory(moduleId, limit = 50)\<close>: the index lookup returns the entries
  of the module in key order; \<^verbatim>\<open>sort\<close> is stable, newest first; \<^verbatim>\<open>slice(0, limit)\<close>.
\<close>

definition history_of :: "database \<Rightarrow> module_id \<Rightarrow> state_record list" where
  "history_of d moduleId =
     filter (\<lambda>r. r_moduleId r = moduleId) (map snd (stateHistory_store d))"

definition getModuleStateHistory ::
    "persistence \<Rightarrow> module_id \<Rightarrow> nat \<Rightarrow> store_error + state_record list" where
  "getModuleStateHistory p moduleId limit =
     (case db p of
        None \<Rightarrow> Inl DatabaseNotInitialized
      | Some d \<Rightarrow> Inr (take limit (sort_key (\<lambda>r. - r_timestamp r) (history_of d moduleId))))"

section \<open>Remote channel: the server's message handler\<close>

text \<open>
  The server (\<^verbatim>\<open>ModuleWebSocketServer\<close>) keeps a map of clients; each connection has a
  socket, captured by the connection's handlers together with the client id. A socket is
  its \<^verbatim>\<open>readyState\<close> and the messages handed to \<^verbatim>\<open>ws.send\<close>.
\<close>

type_synonym client_id = string

datatype ready_state = CONNECTING | OPEN | CLOSING | CLOSED

record envelope =
  e_type :: string
  e_data :: json

record websocket =
  readyState :: ready_state
  sent :: "envelope list"

record client_rec =
  cl_id :: client_id
  cl_type :: string
  lastPing :: int

record server =
  clients :: "(client_id \<times> client_rec) list"
  sockets :: "client_id \<Rightarrow> websocket"

definition sendMessage :: "websocket \<Rightarrow> envelope \<Rightarrow> websocket" where
  "sendMessage ws message =
     (if readyState ws = OPEN then ws\<lparr>sent := sent ws @ [message]\<rparr> else ws)"

definition sendError :: "websocket \<Rightarrow> int \<Rightarrow> string \<Rightarrow> websocket" where
  "sendError ws now err =
     sendMessage ws
       \<lparr>e_type = ''error'',
        e_data = JObj [(''error'', JStr err), (''timestamp'', JNum now)]\<rparr>"

text \<open>
  The \<^verbatim>\<open>'message'\<close> handler of the connection of \<open>clientId\<close>. \<^verbatim>\<open>JSON.parse\<close> and the
  dispatcher \<^verbatim>\<open>handleMessage\<close> are parameters: \<open>parse\<close> returns \<open>None\<close> where
  \<^verbatim>\<open>JSON.parse\<close> throws, and \<open>handleMessage\<close> returns the server state it leaves and
  whether it threw synchronously. Both failures reach the same \<^verbatim>\<open>catch\<close>.
\<close>

definition on_message ::
    "(string \<Rightarrow> json option) \<Rightarrow> (client_id \<Rightarrow> json \<Rightarrow> server \<Rightarrow> bool \<times> server) \<Rightarrow>
     server \<Rightarrow> int \<Rightarrow> client_id \<Rightarrow> string \<Rightarrow> server" where
  "on_message parse handleMessage srv now clientId message =
     (case parse message of
        None \<Rightarrow>
          srv\<lparr>sockets := (sockets srv)
                 (clientId := sendError (sockets srv clientId) now ''Invalid JSON message'')\<rparr>
      | Some data \<Rightarrow>
          (case handleMessage clientId data srv of
             (False, srv') \<Rightarrow> srv'
           | (True, srv') \<Rightarrow>
               srv'\<lparr>sockets := (sockets srv')
                      (clientId := sendError (sockets srv' clientId) now ''Invalid JSON message'')\<rparr>))"


section \<open>Dependency relation and example registries\<close>

text \<open>
  The dependency relation of a module map: \<open>(a, b)\<close> when \<open>a\<close> is registered and lists
  \<open>b\<close>. A graph is acyclic when this relation is.
\<close>

definition dep_rel :: "(module_id \<times> module_rec) list \<Rightarrow> (module_id \<times> module_id) set" where
  "dep_rel ms = {(a, b). b \<in> set (deps_of ms a)}"

text \<open>
  \<open>topo ms order\<close>: every dependency of an element of \<open>order\<close> stands at a strictly
  smaller index.
\<close>

definition topo :: "(module_id \<times> module_rec) list \<Rightarrow> module_id list \<Rightarrow> bool" where
  "topo ms order \<longleftrightarrow>
     (\<forall>i < length order. \<forall>d \<in> set (deps_of ms (order ! i)). \<exists>j < i. order ! j = d)"

text \<open>
  The registry of the example in \<^verbatim>\<open>main.jsx\<close>: an audio module without dependencies,
  a voice module that depends on it, and a text-to-speech module that depends on both.
\<close>

definition empty_config :: module_config where
  "empty_config =
     \<lparr>c_id = None, c_name = None, c_version = None, c_dependencies = None, c_exports = None,
      c_init = None, c_destroy = None, c_update = None, c_config = None, c_state = None,
      c_lastUpdated = None\<rparr>"

definition empty_system :: module_system where
  "empty_system = \<lparr>modules = [], moduleStates = [], loadedModules = [], log = []\<rparr>"

definition example_config :: "string \<Rightarrow> module_id list \<Rightarrow> module_config" where
  "example_config nm ds =
     empty_config\<lparr>c_name := Some nm, c_version := Some ''1.0.0'', c_dependencies := Some ds\<rparr>"

definition registered_system :: module_system where
  "registered_system =
     snd (registerModule
       (snd (registerModule
         (snd (registerModule empty_system 1 ''audio'' (example_config ''Audio Module'' [])))
         2 ''voice'' (example_config ''Voice Module'' [''audio''])))
       3 ''tts'' (example_config ''TTS Module'' [''audio'', ''voice'']))"

definition example_module :: "module_id \<Rightarrow> string \<Rightarrow> module_id list \<Rightarrow> status \<Rightarrow> int \<Rightarrow> module_rec" where
  "example_module i nm ds st t =
     \<lparr>mid = i, name = Some nm, version = Some ''1.0.0'', dependencies = ds, exports = JObj [],
      init = Fn Returns, destroy = Fn Returns, update = Fn Returns, config = JObj [],
      state = st, lastUpdated = t\<rparr>"


text \<open>An open, empty database and a server with two connected clients.\<close>

definition empty_persistence :: persistence where
  "empty_persistence =
     \<lparr>db = Some \<lparr>moduleStates_store = [], stateHistory_store = [], stateHistory_keygen = 0\<rparr>\<rparr>"

definition example_server :: server where
  "example_server =
     \<lparr>clients = [(''client_a'', \<lparr>cl_id = ''client_a'', cl_type = ''unknown'', lastPing = 0\<rparr>),
                 (''client_b'', \<lparr>cl_id = ''client_b'', cl_type = ''unknown'', lastPing = 0\<rparr>)],
      sockets = (\<lambda>i. \<lparr>readyState = OPEN, sent = []\<rparr>)\<rparr>"

text \<open>
  The invariant of the loaded set: every loaded id is a key of the module map.
\<close>

definition loaded_registered :: "module_system \<Rightarrow> bool" where
  "loaded_registered s \<longleftrightarrow> set (loadedModules s) \<subseteq> fst ` set (modules s)"

text \<open>
  States reached from the example registry: after \<^verbatim>\<open>loadModule('voice')\<close> (audio and
  voice are loaded, tts is only registered) and after \<^verbatim>\<open>loadModule('tts')\<close> (all
  three are loaded).
\<close>

definition voice_loaded_system :: module_system where
  "voice_loaded_system =
     (case loadModule 3 registered_system ''voice'' of
        Some (r, s) \<Rightarrow> s
      | None \<Rightarrow> registered_system)"

definition tts_loaded_system :: module_system where
  "tts_loaded_system =
     (case loadModule 4 registered_system ''tts'' of
        Some (r, s) \<Rightarrow> s
      | None \<Rightarrow> registered_system)"

text \<open>
  The loaded modules whose dependency list contains the id: the dependents the
  specification's unload rule speaks of.
\<close>

definition loaded_dependents :: "module_system \<Rightarrow> module_id \<Rightarrow> module_id list" where
  "loaded_dependents s moduleId =
     filter (\<lambda>l. moduleId \<in> set (deps_of (modules s) l)) (loadedModules s)"

text \<open>The ids whose destroy hook was invoked, in the order of the log.\<close>

fun destroy_calls :: "event list \<Rightarrow> module_id list" where
  "destroy_calls [] = []"
| "destroy_calls (DestroyCalled i # es) = i # destroy_calls es"
| "destroy_calls (e # es) = destroy_calls es"

text \<open>
  The registry of the cycle example: a depends on b, then b is registered depending on a.
\<close>

definition half_cyclic_system :: module_system where
  "half_cyclic_system = snd (registerModule empty_system 1 ''a'' (example_config ''A'' [''b'']))"

definition cyclic_system :: module_system where
  "cyclic_system = snd (registerModule half_cyclic_system 2 ''b'' (example_config ''B'' [''a'']))"

text \<open>
  A set of ids is closed for a target when the dependencies of its members are members
  and none of them is the target: what \<^verbatim>\<open>visited\<close> satisfies while \<^verbatim>\<open>checkCircular\<close>
  has not thrown.
\<close>

definition deps_closed :: "(module_id \<times> module_rec) list \<Rightarrow> module_id \<Rightarrow> module_id set \<Rightarrow> bool" where
  "deps_closed ms targetId V \<longleftrightarrow>
     (\<forall>v \<in> V. \<forall>d \<in> set (deps_of ms v). d \<in> V \<and> d \<noteq> targetId)"



text \<open>The ids whose init hook was invoked, in the order of the log.\<close>

fun init_calls :: "event list \<Rightarrow> module_id list" where
  "init_calls [] = []"
| "init_calls (InitCalled i # es) = i # init_calls es"
| "init_calls (e # es) = init_calls es"

section \<open>Properties of the dependency resolver\<close>

lemma registered_system_eq:
  "registered_system =
     \<lparr>modules = [(''audio'', example_module ''audio'' ''Audio Module'' [] Registered 1),
                 (''voice'', example_module ''voice'' ''Voice Module'' [''audio''] Registered 2),
                 (''tts'', example_module ''tts'' ''TTS Module'' [''audio'', ''voice''] Registered 3)],
      moduleStates = [(''audio'', Registered), (''voice'', Registered), (''tts'', Registered)],
      loadedModules = [], log = []\<rparr>"
  by (simp add: registered_system_def registerModule_def empty_system_def example_config_def
      empty_config_def example_module_def json_or_default_def hook_or_default_def Let_def)

lemma acyclic_by_rank:
  fixes f :: "'a \<Rightarrow> nat"
  assumes "\<And>a b. (a, b) \<in> r \<Longrightarrow> f b < f a"
  shows "acyclic r"
proof -
  have "r\<inverse> \<subseteq> measure f" using assms by auto
  then have "wf (r\<inverse>)" by (rule wf_subset[OF wf_measure])
  then have "acyclic (r\<inverse>)" by (rule wf_acyclic)
  then show ?thesis by simp
qed

lemma registered_system_deps:
  "deps_of (modules registered_system) i =
     (if i = ''audio'' then [] else if i = ''voice'' then [''audio'']
      else if i = ''tts'' then [''audio'', ''voice''] else [])"
  by (simp add: registered_system_eq deps_of_def example_module_def)

lemma registered_system_acyclic: "acyclic (dep_rel (modules registered_system))"
proof (rule acyclic_by_rank[where f = "\<lambda>i. if i = ''tts'' then 2 else if i = ''voice'' then 1 else 0"])
  fix a b
  assume "(a, b) \<in> dep_rel (modules registered_system)"
  then have "b \<in> set (deps_of (modules registered_system) a)" by (simp add: dep_rel_def)
  then show "(if b = ''tts'' then 2 else if b = ''voice'' then 1 else 0)
      < (if a = ''tts'' then 2 else if a = ''voice'' then (1::nat) else 0)"
    by (auto simp: registered_system_deps split: if_splits)
qed

lemma registered_system_order: "getDependencyOrder (modules registered_system) (deps_of (modules registered_system) ''tts'')
   = Inr [''audio'', ''voice'']"
  by (simp add: getDependencyOrder_def registered_system_deps)

lemma topo_snoc:
  assumes "topo ms order" and "set (deps_of ms x) \<subseteq> set order"
  shows "topo ms (order @ [x])"
  unfolding topo_def
proof (intro allI impI ballI)
  fix i d
  assume i: "i < length (order @ [x])" and d: "d \<in> set (deps_of ms ((order @ [x]) ! i))"
  show "\<exists>j<i. (order @ [x]) ! j = d"
  proof (cases "i < length order")
    case True
    with d have "d \<in> set (deps_of ms (order ! i))" by (simp add: nth_append)
    with assms(1) True obtain j where "j < i" "order ! j = d"
      unfolding topo_def by blast
    with True show ?thesis by (auto simp: nth_append intro!: exI[of _ j])
  next
    case False
    with i have ieq: "i = length order" by simp
    with d have "d \<in> set order" using assms(2) by auto
    then obtain j where "j < length order" "order ! j = d"
      by (auto simp: in_set_conv_nth)
    with ieq show ?thesis by (auto simp: nth_append intro!: exI[of _ j])
  qed
qed

lemma visit_no_throw:
  "acyclic (dep_rel ms) \<Longrightarrow> (\<forall>v\<in>visiting. (v, depId) \<in> (dep_rel ms)\<^sup>+) \<Longrightarrow>
     \<exists>r. visit ms visiting depId st = Inr r"
  "acyclic (dep_rel ms) \<Longrightarrow> (\<forall>v\<in>visiting. \<forall>d\<in>set ds. (v, d) \<in> (dep_rel ms)\<^sup>+) \<Longrightarrow>
     \<exists>r. visit_each ms visiting ds st = Inr r"
proof (induction ms visiting depId st and ms visiting ds st rule: visit_visit_each.induct)
  case (1 ms visiting depId visited order)
  have notin: "depId \<notin> visiting"
    using 1(2,3) by (auto simp: acyclic_def)
  show ?case
  proof (cases "depId \<in> visited")
    case True
    with notin show ?thesis by simp
  next
    case False
    have "\<forall>v\<in>insert depId visiting. \<forall>d\<in>set (deps_of ms depId). (v, d) \<in> (dep_rel ms)\<^sup>+"
    proof (intro ballI)
      fix v d assume v: "v \<in> insert depId visiting" and d: "d \<in> set (deps_of ms depId)"
      from d have e: "(depId, d) \<in> dep_rel ms" by (simp add: dep_rel_def)
      show "(v, d) \<in> (dep_rel ms)\<^sup>+"
      proof (cases "v = depId")
        case True with e show ?thesis by auto
      next
        case False
        with v 1(3) have "(v, depId) \<in> (dep_rel ms)\<^sup>+" by auto
        with e show ?thesis by (auto intro: trancl.trancl_into_trancl)
      qed
    qed
    with 1(1)[OF notin False 1(2)] obtain r where
      "visit_each ms (insert depId visiting) (deps_of ms depId) (visited, order) = Inr r"
      by blast
    with notin False show ?thesis by (cases r) simp
  qed
next
  case (2 ms visiting st)
  show ?case by simp
next
  case (3 ms visiting d ds st)
  from 3(1)[OF 3(3)] 3(4) obtain st' where v: "visit ms visiting d st = Inr st'" by auto
  from 3(2)[OF v 3(3)] 3(4) obtain r where "visit_each ms visiting ds st' = Inr r" by auto
  with v show ?case by simp
qed

lemma visit_inv:
  "visit ms visiting depId st = Inr st' \<Longrightarrow> fst st = set (snd st) \<Longrightarrow> distinct (snd st) \<Longrightarrow>
     topo ms (snd st) \<Longrightarrow>
     fst st' = set (snd st') \<and> distinct (snd st') \<and> topo ms (snd st') \<and>
     depId \<in> set (snd st') \<and> set (snd st) \<subseteq> set (snd st') \<and>
     set (snd st') \<inter> visiting \<subseteq> set (snd st)"
  "visit_each ms visiting ds st = Inr st' \<Longrightarrow> fst st = set (snd st) \<Longrightarrow> distinct (snd st) \<Longrightarrow>
     topo ms (snd st) \<Longrightarrow>
     fst st' = set (snd st') \<and> distinct (snd st') \<and> topo ms (snd st') \<and>
     set ds \<subseteq> set (snd st') \<and> set (snd st) \<subseteq> set (snd st') \<and>
     set (snd st') \<inter> visiting \<subseteq> set (snd st)"
proof (induction ms visiting depId st and ms visiting ds st arbitrary: st' and st'
       rule: visit_visit_each.induct)
  case (1 ms visiting depId visited order)
  from 1(2) have notin: "depId \<notin> visiting" by (auto split: if_splits)
  show ?case
  proof (cases "depId \<in> visited")
    case True
    with 1(2) notin have "st' = (visited, order)" by simp
    with 1(3-5) True show ?thesis by auto
  next
    case False
    with 1(2) notin obtain vis1 ord1 where
      ve: "visit_each ms (insert depId visiting) (deps_of ms depId) (visited, order) = Inr (vis1, ord1)"
      and st': "st' = (insert depId vis1, ord1 @ [depId])"
      by (auto split: sum.splits)
    from 1(1)[OF notin False ve 1(3-5)]
    have ih: "vis1 = set ord1" "distinct ord1" "topo ms ord1"
      "set (deps_of ms depId) \<subseteq> set ord1" "set order \<subseteq> set ord1"
      "set ord1 \<inter> insert depId visiting \<subseteq> set order"
      by simp_all
    from ih(6) False 1(3) have dnew: "depId \<notin> set ord1" by auto
    have "topo ms (ord1 @ [depId])" using ih(3,4) by (rule topo_snoc)
    with ih dnew notin st' show ?thesis by auto
  qed
next
  case (2 ms visiting st)
  then show ?case by auto
next
  case (3 ms visiting d ds st)
  from 3(3) obtain st1 where v: "visit ms visiting d st = Inr st1"
    and ve: "visit_each ms visiting ds st1 = Inr st'"
    by (auto split: sum.splits)
  from 3(1)[OF v 3(4-6)] have a: "fst st1 = set (snd st1)" "distinct (snd st1)" "topo ms (snd st1)"
    "d \<in> set (snd st1)" "set (snd st) \<subseteq> set (snd st1)" "set (snd st1) \<inter> visiting \<subseteq> set (snd st)"
    by simp_all
  from 3(2)[OF v ve a(1-3)] have b: "fst st' = set (snd st')" "distinct (snd st')" "topo ms (snd st')"
    "set ds \<subseteq> set (snd st')" "set (snd st1) \<subseteq> set (snd st')" "set (snd st') \<inter> visiting \<subseteq> set (snd st1)"
    by simp_all
  from a b show ?case by auto
qed


text \<open>
  C2. On an acyclic dependency graph, the load order computed for the dependency list of
  any root id is returned (no error is thrown), contains each id at most once, contains
  the root's dependencies, and places every dependency of each of its elements at a
  strictly smaller index: a shared sub-dependency appears once, before all its
  dependents.
\<close>

theorem getDependencyOrder_topological:
  assumes "acyclic (dep_rel ms)"
  shows "\<exists>order. getDependencyOrder ms (deps_of ms root) = Inr order \<and> distinct order \<and>
           set (deps_of ms root) \<subseteq> set order \<and>
           (\<forall>i < length order. \<forall>d \<in> set (deps_of ms (order ! i)). \<exists>j < i. order ! j = d)"
proof -
  from visit_no_throw(2)[OF assms, of "{}" "deps_of ms root" "({}, [])"]
  obtain st' where ve: "visit_each ms {} (deps_of ms root) ({}, []) = Inr st'"
    by auto
  have "topo ms []" by (simp add: topo_def)
  with visit_inv(2)[OF ve] have inv: "distinct (snd st')" "topo ms (snd st')"
    "set (deps_of ms root) \<subseteq> set (snd st')"
    by simp_all
  from ve have "getDependencyOrder ms (deps_of ms root) = Inr (snd st')"
    by (cases st') (simp add: getDependencyOrder_def)
  with inv show ?thesis unfolding topo_def by blast
qed

theorem getDependencyOrder_topological_witness:
  "acyclic (dep_rel (modules registered_system)) \<and>
   getDependencyOrder (modules registered_system) (deps_of (modules registered_system) ''tts'')
     = Inr [''audio'', ''voice''] \<and>
   (\<exists>order. getDependencyOrder (modules registered_system)
               (deps_of (modules registered_system) ''tts'') = Inr order \<and>
            distinct order \<and> set (deps_of (modules registered_system) ''tts'') \<subseteq> set order)"
  using getDependencyOrder_topological[OF registered_system_acyclic, of "''tts''"]
    registered_system_acyclic registered_system_order
  by auto

section \<open>Properties of the lifecycle operations\<close>

text \<open>
  C10. Unloading a registered module that is not in the loaded set returns normally and
  leaves the whole state as it was: no destroy hook and no event is logged, no status,
  descriptor or loaded-set entry changes.
\<close>

theorem unloadModule_not_loaded_noop:
  assumes "map_of (modules s) moduleId = Some m" and "moduleId \<notin> set (loadedModules s)"
  shows "unloadModule s moduleId = (Inr (), s)"
  using assms by (simp add: unloadModule_def)

theorem unloadModule_not_loaded_noop_witness:
  "map_of (modules registered_system) ''audio''
     = Some (example_module ''audio'' ''Audio Module'' [] Registered 1) \<and>
   ''audio'' \<notin> set (loadedModules registered_system) \<and>
   unloadModule registered_system ''audio'' = (Inr (), registered_system)"
proof -
  have a: "map_of (modules registered_system) ''audio''
     = Some (example_module ''audio'' ''Audio Module'' [] Registered 1)"
    by (simp add: registered_system_eq)
  have b: "''audio'' \<notin> set (loadedModules registered_system)"
    by (simp add: registered_system_eq)
  from unloadModule_not_loaded_noop[OF a b] a b show ?thesis by simp
qed

section \<open>Properties of the state store\<close>

lemma json_clone_ident: "json_clone j = j"
  by (induction j) (auto simp: map_idI split: prod.splits)

text \<open>
  C7. With the database open, saving a state for a module and then loading the module's
  state returns the saved value; the save adds exactly one entry to the module's history
  and none to any other module's, so the history listing grows by one up to its limit;
  and a later save for a different module does not disturb the stored value.
\<close>

theorem save_load_round_trip:
  assumes "db p = Some d"
  shows "\<exists>r p' d'. saveModuleState p now moduleId st options = Inr (r, p') \<and> db p' = Some d' \<and>
           r_state r = st \<and>
           loadModuleState p' moduleId None = Inr st \<and>
           length (history_of d' moduleId) = length (history_of d moduleId) + 1 \<and>
           (\<forall>other. other \<noteq> moduleId \<longrightarrow> history_of d' other = history_of d other) \<and>
           (\<exists>hs. getModuleStateHistory p' moduleId limit = Inr hs \<and>
                 length hs = min limit (length (history_of d moduleId) + 1)) \<and>
           (\<forall>now2 other st2 options2 r2 p2.
              other \<noteq> moduleId \<and> saveModuleState p' now2 other st2 options2 = Inr (r2, p2)
                \<longrightarrow> loadModuleState p2 moduleId None = Inr st)"
  using assms
  by (auto simp: saveModuleState_def loadModuleState_def getModuleStateHistory_def history_of_def
      json_clone_ident Let_def update_conv')

theorem save_load_round_trip_witness:
  "db empty_persistence
     = Some \<lparr>moduleStates_store = [], stateHistory_store = [], stateHistory_keygen = 0\<rparr> \<and>
   (\<exists>r p'. saveModuleState empty_persistence 7 ''tts'' (JObj [(''count'', JNum 1)])
              \<lparr>o_version = None, o_metadata = None\<rparr> = Inr (r, p') \<and>
           loadModuleState p' ''tts'' None = Inr (JObj [(''count'', JNum 1)]) \<and>
           getModuleStateHistory p' ''tts'' 50 = Inr [r])"
proof -
  have a: "db empty_persistence
     = Some \<lparr>moduleStates_store = [], stateHistory_store = [], stateHistory_keygen = 0\<rparr>"
    by (simp add: empty_persistence_def)
  from save_load_round_trip[OF a, of 7 "''tts''" "JObj [(''count'', JNum 1)]"
      "\<lparr>o_version = None, o_metadata = None\<rparr>" 50]
  obtain r p' where "saveModuleState empty_persistence 7 ''tts'' (JObj [(''count'', JNum 1)])
              \<lparr>o_version = None, o_metadata = None\<rparr> = Inr (r, p')"
    and "loadModuleState p' ''tts'' None = Inr (JObj [(''count'', JNum 1)])"
    by blast
  moreover from this(1) have "getModuleStateHistory p' ''tts'' 50 = Inr [r]"
    by (auto simp: saveModuleState_def empty_persistence_def getModuleStateHistory_def
        history_of_def Let_def)
  ultimately show ?thesis using a by blast
qed

section \<open>Properties of the server's message handler\<close>

text \<open>
  C8. When a frame that \<^verbatim>\<open>JSON.parse\<close> rejects arrives on the open socket of a
  connected client, the handler sends that socket one envelope of type \<^verbatim>\<open>error\<close>
  carrying the error text and the timestamp; the socket stays open, the client map (the
  broadcast set) is unchanged, and no other socket is touched.
\<close>

theorem malformed_frame_error_reply:
  assumes "parse message = None"
    and "map_of (clients srv) clientId = Some c"
    and "readyState (sockets srv clientId) = OPEN"
  shows "sent (sockets (on_message parse handleMessage srv now clientId message) clientId)
           = sent (sockets srv clientId) @
               [\<lparr>e_type = ''error'',
                 e_data = JObj [(''error'', JStr ''Invalid JSON message''),
                                (''timestamp'', JNum now)]\<rparr>] \<and>
         readyState (sockets (on_message parse handleMessage srv now clientId message) clientId)
           = OPEN \<and>
         clients (on_message parse handleMessage srv now clientId message) = clients srv \<and>
         (\<forall>other. other \<noteq> clientId \<longrightarrow>
            sockets (on_message parse handleMessage srv now clientId message) other
              = sockets srv other)"
  using assms by (simp add: on_message_def sendError_def sendMessage_def)

theorem malformed_frame_error_reply_witness:
  "sent (sockets (on_message (\<lambda>t. None) (\<lambda>i j srv. (False, srv)) example_server 5
                    ''client_a'' ''{oops'') ''client_a'')
     = [\<lparr>e_type = ''error'',
         e_data = JObj [(''error'', JStr ''Invalid JSON message''), (''timestamp'', JNum 5)]\<rparr>] \<and>
   sent (sockets (on_message (\<lambda>t. None) (\<lambda>i j srv. (False, srv)) example_server 5
                    ''client_a'' ''{oops'') ''client_b'') = [] \<and>
   map fst (clients (on_message (\<lambda>t. None) (\<lambda>i j srv. (False, srv)) example_server 5
                    ''client_a'' ''{oops'')) = [''client_a'', ''client_b'']"
proof -
  have a: "(\<lambda>t::string. None::json option) ''{oops'' = None" by simp
  have b: "map_of (clients example_server) ''client_a''
             = Some \<lparr>cl_id = ''client_a'', cl_type = ''unknown'', lastPing = 0\<rparr>"
    by (simp add: example_server_def)
  have c: "readyState (sockets example_server ''client_a'') = OPEN"
    by (simp add: example_server_def)
  from malformed_frame_error_reply[OF a b c, of "\<lambda>i j srv. (False, srv)" 5]
  show ?thesis by (simp add: example_server_def)
qed

section \<open>Preservation of the loaded-set invariant\<close>

lemma call_hook_frame:
  "call_hook h ev err s = (r, s') \<Longrightarrow>
     modules s' = modules s \<and> moduleStates s' = moduleStates s \<and> loadedModules s' = loadedModules s"
  by (auto simp: call_hook_def emit_def split: hook.splits outcome.splits)

lemma registerModule_inv:
  "loaded_registered s \<Longrightarrow> loaded_registered (snd (registerModule s now i c))"
  by (auto simp: loaded_registered_def registerModule_def Let_def dom_update)

lemma load_inv:
  "loadModule n s i = Some (r, s') \<Longrightarrow> loaded_registered s \<Longrightarrow> loaded_registered s'"
  "checkDependencies n s i = Some (r2, s') \<Longrightarrow> loaded_registered s \<Longrightarrow> loaded_registered s'"
  "load_each n s ds = Some (r2, s') \<Longrightarrow> loaded_registered s \<Longrightarrow> loaded_registered s'"
proof (induction n s i and n s i and n s ds arbitrary: r s' and r2 s' and r2 s'
       rule: loadModule_checkDependencies_load_each.induct)
  case (1 s moduleId)
  then show ?case by simp
next
  case (2 n s moduleId)
  show ?case
  proof (cases "map_of (modules s) moduleId")
    case None
    with 2(2,3) show ?thesis by simp
  next
    case (Some m)
    show ?thesis
    proof (cases "moduleId \<in> set (loadedModules s)")
      case True
      with Some 2(2,3) show ?thesis by simp
    next
      case False
      from 2(2) Some False obtain r1 s1 where cd: "checkDependencies n s moduleId = Some (r1, s1)"
        by (auto split: option.splits)
      from 2(1)[OF Some False cd 2(3)] have i1: "loaded_registered s1" .
      show ?thesis
      proof (cases r1)
        case (Inl e)
        with 2(2) Some False cd i1 show ?thesis by simp
      next
        case (Inr u)
        obtain rh s2 where ch: "call_hook (init m) (InitCalled moduleId) (HookThrew moduleId) s1 = (rh, s2)"
          by (cases "call_hook (init m) (InitCalled moduleId) (HookThrew moduleId) s1")
        from call_hook_frame[OF ch] i1 have i2: "loaded_registered s2"
          by (simp add: loaded_registered_def)
        show ?thesis
        proof (cases rh)
          case (Inl e)
          with 2(2) Some False cd Inr ch i2 show ?thesis by simp
        next
          case (Inr u')
          with 2(2) Some False cd \<open>r1 = Inr u\<close> ch
          have "s' = emit (ModuleLoaded moduleId (m\<lparr>state := Loaded\<rparr>))
                  (s2\<lparr>loadedModules := set_add moduleId (loadedModules s2),
                      moduleStates := AList.update moduleId Loaded (moduleStates s2),
                      modules := AList.update moduleId (m\<lparr>state := Loaded\<rparr>) (modules s2)\<rparr>)"
            by (simp add: Let_def)
          with i2 show ?thesis
            by (auto simp: loaded_registered_def emit_def set_add_def dom_update)
        qed
      qed
    qed
  qed
next
  case (3 n s moduleId)
  then show ?case
    by (auto split: option.splits sum.splits)
next
  case (4 n s)
  then show ?case by simp
next
  case (5 n s depId rest)
  show ?case
  proof (cases "depId \<in> set (loadedModules s)")
    case True
    with 5 show ?thesis by simp
  next
    case False
    with 5(4) obtain r1 s1 where lm: "loadModule n s depId = Some (r1, s1)"
      by (auto split: option.splits)
    from 5(2)[OF False lm 5(5)] have i1: "loaded_registered s1" .
    show ?thesis
    proof (cases r1)
      case (Inl e)
      with 5(4) False lm i1 show ?thesis by simp
    next
      case (Inr m)
      with 5(4) False lm have "load_each n s1 rest = Some (r2, s')" by simp
      from 5(3)[OF False lm _ _ this i1] Inr show ?thesis by simp
    qed
  qed
qed

lemma unloadModule_inv:
  "unloadModule s i = (r, s') \<Longrightarrow> loaded_registered s \<Longrightarrow> loaded_registered s'"
  by (auto simp: unloadModule_def Let_def loaded_registered_def emit_def set_delete_def dom_update
      call_hook_def split: option.splits if_splits hook.splits outcome.splits)

lemma unloadModule_ok_not_loaded:
  "unloadModule s i = (Inr u, s') \<Longrightarrow> i \<notin> set (loadedModules s')"
  by (auto simp: unloadModule_def Let_def emit_def set_delete_def call_hook_def
      split: option.splits if_splits hook.splits outcome.splits)

lemma delete_keys_set: "fst ` set (AList.delete k al) = fst ` set al - {k}"
  by (induction al) auto

lemma handleModuleUninstall_inv:
  assumes "handleModuleUninstall s data = (r, s')" and "loaded_registered s"
  shows "loaded_registered s'"
proof -
  obtain r1 s1 where u: "unloadModule s (d_moduleId data) = (r1, s1)"
    by (cases "unloadModule s (d_moduleId data)")
  from unloadModule_inv[OF u assms(2)] have i1: "loaded_registered s1" .
  show ?thesis
  proof (cases r1)
    case (Inl e)
    with assms(1) u i1 show ?thesis by (simp add: handleModuleUninstall_def)
  next
    case (Inr x)
    with u have "d_moduleId data \<notin> set (loadedModules s1)"
      by (auto dest: unloadModule_ok_not_loaded)
    with assms(1) u Inr i1 show ?thesis
      by (auto simp: handleModuleUninstall_def loaded_registered_def delete_keys_set)
  qed
qed

lemma handleModuleReload_inv:
  assumes "handleModuleReload n s now data = Some (r, s')" and "loaded_registered s"
  shows "loaded_registered s'"
proof -
  let ?i = "d_moduleId data"
  let ?w = "?i \<in> set (loadedModules s)"
  obtain r1 s1 where u: "(if ?w then unloadModule s ?i else (Inr (), s)) = (r1, s1)"
    by (cases "if ?w then unloadModule s ?i else (Inr (), s)")
  have i1: "loaded_registered s1"
    using u assms(2) by (auto split: if_splits dest: unloadModule_inv)
  show ?thesis
  proof (cases r1)
    case (Inl e)
    with assms(1) u i1 show ?thesis by (simp add: handleModuleReload_def Let_def)
  next
    case (Inr x)
    show ?thesis
    proof (cases "d_moduleConfig data")
      case None
      with assms(1) u Inr i1 show ?thesis by (simp add: handleModuleReload_def Let_def)
    next
      case (Some c)
      let ?s2 = "snd (registerModule s1 now ?i c)"
      have i2: "loaded_registered ?s2" using i1 by (rule registerModule_inv)
      show ?thesis
      proof (cases ?w)
        case True
        with assms(1) u Inr Some obtain r3 where "loadModule n ?s2 ?i = Some (r3, s')"
          by (auto simp: handleModuleReload_def Let_def split: option.splits sum.splits)
        from load_inv(1)[OF this i2] show ?thesis .
      next
        case False
        with assms(1) u Inr Some i2 show ?thesis
          by (auto simp: handleModuleReload_def Let_def)
      qed
    qed
  qed
qed

lemma restartSystem_inv: "loaded_registered (restartSystem s)"
  by (simp add: restartSystem_def loaded_registered_def emit_def)


section \<open>Unloading and dependents\<close>

lemma update_existing_keys:
  "map_of al k = Some v \<Longrightarrow> map fst (AList.update k v' al) = map fst al"
  by (induction al) (auto split: if_splits)

lemma loaded_dependent_registered:
  assumes "loaded_dependents s moduleId \<noteq> []"
  shows "getDependents (modules s) moduleId \<noteq> []"
proof -
  from assms obtain l where "moduleId \<in> set (deps_of (modules s) l)"
    by (auto simp: loaded_dependents_def filter_empty_conv)
  then obtain ml where ml: "map_of (modules s) l = Some ml" "moduleId \<in> set (dependencies ml)"
    by (cases "map_of (modules s) l") (auto simp: deps_of_def)
  then have "(l, ml) \<in> set (modules s)" by (auto dest: map_of_SomeD)
  with ml(2) show ?thesis
    by (auto simp: getDependents_def filter_empty_conv)
qed

text \<open>
  C4 (amended). For a registered, loaded module: while any registered module, loaded or
  not, lists the id as a dependency (in particular while a loaded one does), unloadModule
  fails with the dependents error and changes nothing: no destroy hook, no event, no
  status change. When no registered module lists the id, unloadModule invokes the destroy
  hook, exactly once when it is a function; if the hook throws, the call fails and only
  the invocation is logged; otherwise the call succeeds, the id leaves the loaded set,
  its status and its descriptor's state become Unloaded, every other entry stays as it
  is, and the Unloaded event is published after the hook.
\<close>

theorem unloadModule_dependents:
  assumes "map_of (modules s) moduleId = Some m" and "moduleId \<in> set (loadedModules s)"
  shows "(loaded_dependents s moduleId \<noteq> [] \<longrightarrow> getDependents (modules s) moduleId \<noteq> []) \<and>
         (getDependents (modules s) moduleId \<noteq> [] \<longrightarrow>
            unloadModule s moduleId
              = (Inl (CannotUnload moduleId (getDependents (modules s) moduleId)), s)) \<and>
         (getDependents (modules s) moduleId = [] \<and> destroy m = Fn Throws \<longrightarrow>
            unloadModule s moduleId = (Inl (HookThrew moduleId), emit (DestroyCalled moduleId) s)) \<and>
         (getDependents (modules s) moduleId = [] \<and> destroy m \<noteq> Fn Throws \<longrightarrow>
            (\<exists>s'. unloadModule s moduleId = (Inr (), s') \<and>
                  moduleId \<notin> set (loadedModules s') \<and>
                  map_of (moduleStates s') moduleId = Some Unloaded \<and>
                  map_of (modules s') moduleId = Some (m\<lparr>state := Unloaded\<rparr>) \<and>
                  loadedModules s' = removeAll moduleId (loadedModules s) \<and>
                  map_of (moduleStates s') = (map_of (moduleStates s))(moduleId \<mapsto> Unloaded) \<and>
                  map_of (modules s') = (map_of (modules s))(moduleId \<mapsto> m\<lparr>state := Unloaded\<rparr>) \<and>
                  map fst (modules s') = map fst (modules s) \<and>
                  log s' = log s @ (if destroy m = Falsy then [] else [DestroyCalled moduleId])
                             @ [ModuleUnloaded moduleId (m\<lparr>state := Unloaded\<rparr>)]))"
proof (intro conjI impI)
  assume "loaded_dependents s moduleId \<noteq> []"
  then show "getDependents (modules s) moduleId \<noteq> []" by (rule loaded_dependent_registered)
next
  assume "getDependents (modules s) moduleId \<noteq> []"
  with assms show "unloadModule s moduleId
              = (Inl (CannotUnload moduleId (getDependents (modules s) moduleId)), s)"
    by (simp add: unloadModule_def Let_def)
next
  assume "getDependents (modules s) moduleId = [] \<and> destroy m = Fn Throws"
  with assms show "unloadModule s moduleId = (Inl (HookThrew moduleId), emit (DestroyCalled moduleId) s)"
    by (simp add: unloadModule_def Let_def call_hook_def)
next
  assume a: "getDependents (modules s) moduleId = [] \<and> destroy m \<noteq> Fn Throws"
  have k: "map fst (AList.update moduleId (m\<lparr>state := Unloaded\<rparr>) (modules s)) = map fst (modules s)"
    using assms(1) by (rule update_existing_keys)
  from a consider "destroy m = Falsy" | "destroy m = Fn Returns"
    by (cases "destroy m" rule: hook.exhaust) (auto intro: outcome.exhaust)
  then show "\<exists>s'. unloadModule s moduleId = (Inr (), s') \<and>
                  moduleId \<notin> set (loadedModules s') \<and>
                  map_of (moduleStates s') moduleId = Some Unloaded \<and>
                  map_of (modules s') moduleId = Some (m\<lparr>state := Unloaded\<rparr>) \<and>
                  loadedModules s' = removeAll moduleId (loadedModules s) \<and>
                  map_of (moduleStates s') = (map_of (moduleStates s))(moduleId \<mapsto> Unloaded) \<and>
                  map_of (modules s') = (map_of (modules s))(moduleId \<mapsto> m\<lparr>state := Unloaded\<rparr>) \<and>
                  map fst (modules s') = map fst (modules s) \<and>
                  log s' = log s @ (if destroy m = Falsy then [] else [DestroyCalled moduleId])
                             @ [ModuleUnloaded moduleId (m\<lparr>state := Unloaded\<rparr>)]"
    using assms a k
    by cases (simp_all add: unloadModule_def Let_def call_hook_def emit_def set_delete_def update_conv')
qed

text \<open>
  The claim as stated fails: in the example registry after loading voice, no loaded
  module depends on voice (tts is registered but not loaded), and unloading voice is
  still refused.
\<close>

theorem unloadModule_dependents_counterexample:
  "loadModule 3 registered_system ''voice''
     = Some (Inr (example_module ''voice'' ''Voice Module'' [''audio''] Loaded 2),
             voice_loaded_system) \<and>
   loadedModules voice_loaded_system = [''audio'', ''voice''] \<and>
   loaded_dependents voice_loaded_system ''voice'' = [] \<and>
   unloadModule voice_loaded_system ''voice''
     = (Inl (CannotUnload ''voice'' [''tts'']), voice_loaded_system)"
  by code_simp

theorem unloadModule_dependents_witness:
  "map_of (modules voice_loaded_system) ''audio''
     = Some (example_module ''audio'' ''Audio Module'' [] Loaded 1) \<and>
   ''audio'' \<in> set (loadedModules voice_loaded_system) \<and>
   loaded_dependents voice_loaded_system ''audio'' = [''voice''] \<and>
   unloadModule voice_loaded_system ''audio''
     = (Inl (CannotUnload ''audio'' [''voice'', ''tts'']), voice_loaded_system) \<and>
   map_of (modules tts_loaded_system) ''tts''
     = Some (example_module ''tts'' ''TTS Module'' [''audio'', ''voice''] Loaded 3) \<and>
   ''tts'' \<in> set (loadedModules tts_loaded_system) \<and>
   getDependents (modules tts_loaded_system) ''tts'' = [] \<and>
   (\<exists>s'. unloadModule tts_loaded_system ''tts'' = (Inr (), s') \<and>
         loadedModules s' = [''audio'', ''voice''] \<and>
         map_of (moduleStates s') ''tts'' = Some Unloaded \<and>
         log s' = log tts_loaded_system @
                    [DestroyCalled ''tts'',
                     ModuleUnloaded ''tts''
                       (example_module ''tts'' ''TTS Module'' [''audio'', ''voice''] Unloaded 3)])"
proof -
  have a: "map_of (modules voice_loaded_system) ''audio''
     = Some (example_module ''audio'' ''Audio Module'' [] Loaded 1)" by code_simp
  have b: "''audio'' \<in> set (loadedModules voice_loaded_system)" by code_simp
  have c: "loaded_dependents voice_loaded_system ''audio'' = [''voice'']" by code_simp
  have d: "getDependents (modules voice_loaded_system) ''audio'' = [''voice'', ''tts'']" by code_simp
  have e: "map_of (modules tts_loaded_system) ''tts''
     = Some (example_module ''tts'' ''TTS Module'' [''audio'', ''voice''] Loaded 3)" by code_simp
  have f: "''tts'' \<in> set (loadedModules tts_loaded_system)" by code_simp
  have g: "getDependents (modules tts_loaded_system) ''tts'' = []" by code_simp
  have h: "destroy (example_module ''tts'' ''TTS Module'' [''audio'', ''voice''] Loaded 3) = Fn Returns"
    by (simp add: example_module_def)
  have l: "loadedModules tts_loaded_system = [''audio'', ''voice'', ''tts'']" by code_simp
  have m: "(example_module ''tts'' ''TTS Module'' [''audio'', ''voice''] Loaded 3)\<lparr>state := Unloaded\<rparr>
             = example_module ''tts'' ''TTS Module'' [''audio'', ''voice''] Unloaded 3"
    by (simp add: example_module_def)
  from unloadModule_dependents[OF a b] d
  have u1: "unloadModule voice_loaded_system ''audio''
     = (Inl (CannotUnload ''audio'' [''voice'', ''tts'']), voice_loaded_system)" by simp
  from unloadModule_dependents[OF e f] g h obtain s' where
    u2: "unloadModule tts_loaded_system ''tts'' = (Inr (), s')"
      "map_of (moduleStates s') ''tts'' = Some Unloaded"
      "loadedModules s' = removeAll ''tts'' (loadedModules tts_loaded_system)"
      "log s' = log tts_loaded_system
                  @ (if destroy (example_module ''tts'' ''TTS Module'' [''audio'', ''voice''] Loaded 3)
                        = Falsy then [] else [DestroyCalled ''tts''])
                  @ [ModuleUnloaded ''tts''
                       ((example_module ''tts'' ''TTS Module'' [''audio'', ''voice''] Loaded 3)
                          \<lparr>state := Unloaded\<rparr>)]"
    by auto
  from u2(3) l have "loadedModules s' = [''audio'', ''voice'']" by simp
  moreover from u2(4) h m have "log s' = log tts_loaded_system @
                    [DestroyCalled ''tts'',
                     ModuleUnloaded ''tts''
                       (example_module ''tts'' ''TTS Module'' [''audio'', ''voice''] Unloaded 3)]"
    by simp
  ultimately have u3: "\<exists>s'. unloadModule tts_loaded_system ''tts'' = (Inr (), s') \<and>
         loadedModules s' = [''audio'', ''voice''] \<and>
         map_of (moduleStates s') ''tts'' = Some Unloaded \<and>
         log s' = log tts_loaded_system @
                    [DestroyCalled ''tts'',
                     ModuleUnloaded ''tts''
                       (example_module ''tts'' ''TTS Module'' [''audio'', ''voice''] Unloaded 3)]"
    using u2(1,2) by blast
  from a b c e f g u1 u3 show ?thesis by blast
qed

section \<open>Hot swap\<close>

text \<open>
  C5 (amended). For a registered module: if it is not in the loaded set, hotSwapModule
  fails with the not-loaded error and changes nothing. If it is loaded, the fragment is
  merged into the descriptor stored under the same key; the key set, the loaded set and
  the status map are unchanged; the descriptor's id property is the fragment's id when
  the fragment carries one and the old id otherwise; and the merged descriptor's update
  hook, when it is a function, is invoked exactly once with the old copy and the merged
  descriptor (followed by the Updated event when it returns, by a failure when it
  throws).
\<close>

theorem hotSwapModule_effects:
  assumes "map_of (modules s) moduleId = Some m"
  shows "(moduleId \<notin> set (loadedModules s) \<longrightarrow>
            hotSwapModule s now moduleId fragment = (Inl (NotLoaded moduleId), s)) \<and>
         (moduleId \<in> set (loadedModules s) \<longrightarrow>
            (\<exists>r s' m'. hotSwapModule s now moduleId fragment = (r, s') \<and>
               m' = (assign m fragment)\<lparr>lastUpdated := now\<rparr> \<and>
               mid m' = (case c_id fragment of None \<Rightarrow> mid m | Some v \<Rightarrow> v) \<and>
               map fst (modules s') = map fst (modules s) \<and>
               map_of (modules s') = (map_of (modules s))(moduleId \<mapsto> m') \<and>
               loadedModules s' = loadedModules s \<and>
               moduleStates s' = moduleStates s \<and>
               (case update m' of
                  Falsy \<Rightarrow> r = Inr m' \<and> log s' = log s @ [ModuleUpdated moduleId m m']
                | Fn Returns \<Rightarrow>
                    r = Inr m' \<and>
                    log s' = log s @ [UpdateCalled moduleId m m', ModuleUpdated moduleId m m']
                | Fn Throws \<Rightarrow>
                    r = Inl (HookThrew moduleId) \<and>
                    log s' = log s @ [UpdateCalled moduleId m m'])))"
proof (intro conjI impI)
  assume "moduleId \<notin> set (loadedModules s)"
  with assms show "hotSwapModule s now moduleId fragment = (Inl (NotLoaded moduleId), s)"
    by (simp add: hotSwapModule_def)
next
  assume l: "moduleId \<in> set (loadedModules s)"
  let ?m' = "(assign m fragment)\<lparr>lastUpdated := now\<rparr>"
  have k: "map fst (AList.update moduleId ?m' (modules s)) = map fst (modules s)"
    using assms by (rule update_existing_keys)
  have i: "mid ?m' = (case c_id fragment of None \<Rightarrow> mid m | Some v \<Rightarrow> v)"
    by (simp add: assign_def)
  show "\<exists>r s' m'. hotSwapModule s now moduleId fragment = (r, s') \<and>
               m' = (assign m fragment)\<lparr>lastUpdated := now\<rparr> \<and>
               mid m' = (case c_id fragment of None \<Rightarrow> mid m | Some v \<Rightarrow> v) \<and>
               map fst (modules s') = map fst (modules s) \<and>
               map_of (modules s') = (map_of (modules s))(moduleId \<mapsto> m') \<and>
               loadedModules s' = loadedModules s \<and>
               moduleStates s' = moduleStates s \<and>
               (case update m' of
                  Falsy \<Rightarrow> r = Inr m' \<and> log s' = log s @ [ModuleUpdated moduleId m m']
                | Fn Returns \<Rightarrow>
                    r = Inr m' \<and>
                    log s' = log s @ [UpdateCalled moduleId m m', ModuleUpdated moduleId m m']
                | Fn Throws \<Rightarrow>
                    r = Inl (HookThrew moduleId) \<and>
                    log s' = log s @ [UpdateCalled moduleId m m'])"
  proof (cases "update ?m'")
    case Falsy
    with assms l k i show ?thesis
      by (simp add: hotSwapModule_def Let_def call_hook_def emit_def update_conv')
  next
    case (Fn oc)
    with assms l k i show ?thesis
      by (cases oc) (simp_all add: hotSwapModule_def Let_def call_hook_def emit_def update_conv')
  qed
qed

text \<open>
  The claim as stated fails: a fragment that carries an id changes the id property of
  the descriptor.
\<close>

theorem hotSwapModule_effects_counterexample:
  "loadedModules voice_loaded_system = [''audio'', ''voice''] \<and>
   map_option mid (map_of (modules voice_loaded_system) ''voice'') = Some ''voice'' \<and>
   c_id (empty_config\<lparr>c_id := Some ''renamed''\<rparr>) = Some ''renamed'' \<and>
   map_option mid
     (map_of (modules (snd (hotSwapModule voice_loaded_system 9 ''voice''
                              (empty_config\<lparr>c_id := Some ''renamed''\<rparr>)))) ''voice'')
     = Some ''renamed''"
  by code_simp

theorem hotSwapModule_effects_witness:
  "map_of (modules voice_loaded_system) ''voice''
     = Some (example_module ''voice'' ''Voice Module'' [''audio''] Loaded 2) \<and>
   ''voice'' \<in> set (loadedModules voice_loaded_system) \<and>
   (\<exists>r s'. hotSwapModule voice_loaded_system 9 ''voice''
             (empty_config\<lparr>c_version := Some ''1.1.0''\<rparr>) = (r, s') \<and>
           map_option mid (map_of (modules s') ''voice'') = Some ''voice'' \<and>
           map_option version (map_of (modules s') ''voice'') = Some (Some ''1.1.0'')) \<and>
   map_of (modules voice_loaded_system) ''tts''
     = Some (example_module ''tts'' ''TTS Module'' [''audio'', ''voice''] Registered 3) \<and>
   ''tts'' \<notin> set (loadedModules voice_loaded_system) \<and>
   hotSwapModule voice_loaded_system 9 ''tts'' (empty_config\<lparr>c_version := Some ''1.1.0''\<rparr>)
     = (Inl (NotLoaded ''tts''), voice_loaded_system)"
proof -
  have a: "map_of (modules voice_loaded_system) ''voice''
     = Some (example_module ''voice'' ''Voice Module'' [''audio''] Loaded 2)" by code_simp
  have b: "''voice'' \<in> set (loadedModules voice_loaded_system)" by code_simp
  have c: "map_of (modules voice_loaded_system) ''tts''
     = Some (example_module ''tts'' ''TTS Module'' [''audio'', ''voice''] Registered 3)" by code_simp
  have d: "''tts'' \<notin> set (loadedModules voice_loaded_system)" by code_simp
  from hotSwapModule_effects[OF a, of 9 "empty_config\<lparr>c_version := Some ''1.1.0''\<rparr>"] b
  obtain r s' where h: "hotSwapModule voice_loaded_system 9 ''voice''
             (empty_config\<lparr>c_version := Some ''1.1.0''\<rparr>) = (r, s')"
    "map_of (modules s') = (map_of (modules voice_loaded_system))(''voice'' \<mapsto>
        (assign (example_module ''voice'' ''Voice Module'' [''audio''] Loaded 2)
           (empty_config\<lparr>c_version := Some ''1.1.0''\<rparr>))\<lparr>lastUpdated := 9\<rparr>)"
    by blast
  from h(2) have e: "map_option mid (map_of (modules s') ''voice'') = Some ''voice''"
    "map_option version (map_of (modules s') ''voice'') = Some (Some ''1.1.0'')"
    by (simp_all add: assign_def empty_config_def example_module_def)
  from hotSwapModule_effects[OF c, of 9 "empty_config\<lparr>c_version := Some ''1.1.0''\<rparr>"] d
  have f: "hotSwapModule voice_loaded_system 9 ''tts'' (empty_config\<lparr>c_version := Some ''1.1.0''\<rparr>)
     = (Inl (NotLoaded ''tts''), voice_loaded_system)" by simp
  from a b c d e f h(1) show ?thesis by blast
qed

section \<open>Restart\<close>

text \<open>
  C6. restartSystem is to unload every loaded module, dependents before their
  dependencies, before it clears the registry; the loop in the code is commented
  "Unload all modules". Run on the example system with audio, voice and tts loaded, the
  loop visits the loaded set in insertion order: unloadModule refuses audio and voice
  because registered modules still list them, the errors are swallowed, and only tts
  reaches its destroy hook. After the loop audio and voice are still in the loaded set
  and their destroy hooks have not run; the registry is then cleared and SystemRestart is
  published last. Visiting the set in the reverse order leaves the same two modules
  loaded, since tts stays registered after its unload.
\<close>

theorem restartSystem_skips_dependencies:
  "loadModule 4 registered_system ''tts''
     = Some (Inr (example_module ''tts'' ''TTS Module'' [''audio'', ''voice''] Loaded 3),
             tts_loaded_system) \<and>
   loadedModules tts_loaded_system = [''audio'', ''voice'', ''tts''] \<and>
   destroy_calls (log tts_loaded_system) = [] \<and>
   unloadModule tts_loaded_system ''audio''
     = (Inl (CannotUnload ''audio'' [''voice'', ''tts'']), tts_loaded_system) \<and>
   unloadModule tts_loaded_system ''voice''
     = (Inl (CannotUnload ''voice'' [''tts'']), tts_loaded_system) \<and>
   loadedModules (unload_all tts_loaded_system (loadedModules tts_loaded_system))
     = [''audio'', ''voice''] \<and>
   destroy_calls (log (unload_all tts_loaded_system (loadedModules tts_loaded_system)))
     = [''tts''] \<and>
   loadedModules (unload_all tts_loaded_system [''tts'', ''voice'', ''audio''])
     = [''audio'', ''voice''] \<and>
   modules (restartSystem tts_loaded_system) = [] \<and>
   moduleStates (restartSystem tts_loaded_system) = [] \<and>
   loadedModules (restartSystem tts_loaded_system) = [] \<and>
   destroy_calls (log (restartSystem tts_loaded_system)) = [''tts''] \<and>
   last (log (restartSystem tts_loaded_system)) = SystemRestart"
  by code_simp

section \<open>Registration and the cycle check\<close>

lemma checkCircular_closed:
  "checkCircular ms visiting currentId targetId visited = Inr visited' \<Longrightarrow>
     deps_closed ms targetId visited \<Longrightarrow>
     deps_closed ms targetId visited' \<and> visited \<subseteq> visited' \<and> currentId \<in> visited'"
  "checkCircular_deps ms visiting currentId targetId ds visited = Inr visited' \<Longrightarrow>
     deps_closed ms targetId visited \<Longrightarrow>
     deps_closed ms targetId visited' \<and> visited \<subseteq> visited' \<and> set ds \<subseteq> visited' \<and>
     targetId \<notin> set ds"
proof (induction ms visiting currentId targetId visited and ms visiting currentId targetId ds visited
       arbitrary: visited' and visited' rule: checkCircular_checkCircular_deps.induct)
  case (1 ms visiting currentId targetId visited)
  from 1(2) have notin: "currentId \<notin> visiting" by (auto split: if_splits)
  show ?case
  proof (cases "currentId \<in> visited")
    case True
    with 1(2,3) notin show ?thesis by simp
  next
    case False
    with 1(2) notin obtain v1 where
      cd: "checkCircular_deps ms (insert currentId visiting) currentId targetId
             (deps_of ms currentId) visited = Inr v1"
      and v': "visited' = insert currentId v1"
      by (auto split: sum.splits)
    from 1(1)[OF notin False cd 1(3)]
    have ih: "deps_closed ms targetId v1" "visited \<subseteq> v1" "set (deps_of ms currentId) \<subseteq> v1"
      "targetId \<notin> set (deps_of ms currentId)"
      by simp_all
    have "deps_closed ms targetId (insert currentId v1)"
      using ih unfolding deps_closed_def by auto
    with ih(2) v' show ?thesis by auto
  qed
next
  case (2 ms visiting currentId targetId visited)
  then show ?case by simp
next
  case (3 ms visiting currentId targetId depId rest visited)
  from 3(3) have ne: "depId \<noteq> targetId" by (auto split: if_splits)
  with 3(3) obtain v1 where
    cc: "checkCircular ms visiting depId targetId visited = Inr v1"
    and cd: "checkCircular_deps ms visiting currentId targetId rest v1 = Inr visited'"
    by (auto split: sum.splits)
  from 3(1)[OF ne cc 3(4)] have a: "deps_closed ms targetId v1" "visited \<subseteq> v1" "depId \<in> v1"
    by simp_all
  from 3(2)[OF ne cc cd a(1)] have b: "deps_closed ms targetId visited'" "v1 \<subseteq> visited'"
    "set rest \<subseteq> visited'" "targetId \<notin> set rest"
    by simp_all
  from a b ne show ?case by auto
qed

lemma deps_closed_reach:
  assumes "deps_closed ms targetId V" and "(x, y) \<in> (dep_rel ms)\<^sup>*" and "x \<in> V"
  shows "y \<in> V"
  using assms(2,3)
proof (induction rule: rtrancl_induct)
  case base
  then show ?case by simp
next
  case (step y z)
  then have "y \<in> V" by simp
  moreover from step(2) have "z \<in> set (deps_of ms y)" by (simp add: dep_rel_def)
  ultimately show ?case using assms(1) unfolding deps_closed_def by blast
qed

lemma checkCircular_ok_no_cycle:
  assumes "checkCircular ms {} moduleId moduleId {} = Inr V"
  shows "(moduleId, moduleId) \<notin> (dep_rel ms)\<^sup>+"
proof
  assume "(moduleId, moduleId) \<in> (dep_rel ms)\<^sup>+"
  then obtain y where y: "(moduleId, y) \<in> (dep_rel ms)\<^sup>*" "(y, moduleId) \<in> dep_rel ms"
    by (auto dest: tranclD2)
  have "deps_closed ms moduleId {}" by (simp add: deps_closed_def)
  from checkCircular_closed(1)[OF assms this]
  have c: "deps_closed ms moduleId V" "moduleId \<in> V" by simp_all
  from deps_closed_reach[OF c(1) y(1) c(2)] have "y \<in> V" .
  moreover from y(2) have "moduleId \<in> set (deps_of ms y)" by (simp add: dep_rel_def)
  ultimately show False using c(1) unfolding deps_closed_def by blast
qed

lemma checkCircular_error:
  "checkCircular ms visiting currentId targetId visited = Inl e \<Longrightarrow>
     \<exists>a b. e = CircularDependency a b"
  "checkCircular_deps ms visiting currentId targetId ds visited = Inl e \<Longrightarrow>
     \<exists>a b. e = CircularDependency a b"
proof (induction ms visiting currentId targetId visited and ms visiting currentId targetId ds visited
       rule: checkCircular_checkCircular_deps.induct)
  case (1 ms visiting currentId targetId visited)
  then show ?case by (auto split: if_splits sum.splits)
next
  case (2 ms visiting currentId targetId visited)
  then show ?case by simp
next
  case (3 ms visiting currentId targetId depId rest visited)
  then show ?case by (auto split: if_splits sum.splits)
qed

lemma loadModule_cycle_rejected:
  assumes "map_of (modules s) moduleId = Some m" and "moduleId \<notin> set (loadedModules s)"
    and "(moduleId, moduleId) \<in> (dep_rel (modules s))\<^sup>+"
  shows "\<exists>a b. loadModule (Suc n) s moduleId = Some (Inl (CircularDependency a b), s)"
proof (cases "checkCircular (modules s) {} moduleId moduleId {}")
  case (Inl e)
  from checkCircular_error(1)[OF Inl] obtain a b where "e = CircularDependency a b" by blast
  with Inl assms(1,2) show ?thesis by (simp del: checkCircular.simps)
next
  case (Inr V)
  from checkCircular_ok_no_cycle[OF Inr] assms(3) show ?thesis by blast
qed


text \<open>
  C1 (amended). registerModule performs no cycle check and cannot fail: it stores the
  new descriptor (status Registered) under the id and leaves every other entry, the
  loaded set and the log as they were, also when the descriptor's dependency set
  transitively includes its own id. The cycle is rejected at load time: if the id is not
  loaded and lies on a cycle of the dependency relation after the registration, every
  loadModule of it fails with the circular-dependency error and leaves the state
  unchanged (no hook runs, nothing is loaded).
\<close>

theorem registerModule_accepts_cycle:
  "\<exists>module s'. registerModule s now moduleId moduleConfig = (module, s') \<and>
     mid module = moduleId \<and> state module = Registered \<and>
     dependencies module = (case c_dependencies moduleConfig of None \<Rightarrow> [] | Some ds \<Rightarrow> ds) \<and>
     map_of (modules s') = (map_of (modules s))(moduleId \<mapsto> module) \<and>
     map_of (moduleStates s') = (map_of (moduleStates s))(moduleId \<mapsto> Registered) \<and>
     loadedModules s' = loadedModules s \<and> log s' = log s \<and>
     (moduleId \<notin> set (loadedModules s) \<and> (moduleId, moduleId) \<in> (dep_rel (modules s'))\<^sup>+ \<longrightarrow>
        (\<forall>n. \<exists>a b. loadModule (Suc n) s' moduleId = Some (Inl (CircularDependency a b), s')))"
proof -
  obtain module s' where r: "registerModule s now moduleId moduleConfig = (module, s')"
    by (cases "registerModule s now moduleId moduleConfig")
  then have p: "mid module = moduleId" "state module = Registered"
    "dependencies module = (case c_dependencies moduleConfig of None \<Rightarrow> [] | Some ds \<Rightarrow> ds)"
    "map_of (modules s') = (map_of (modules s))(moduleId \<mapsto> module)"
    "map_of (moduleStates s') = (map_of (moduleStates s))(moduleId \<mapsto> Registered)"
    "loadedModules s' = loadedModules s" "log s' = log s"
    by (auto simp: registerModule_def Let_def update_conv')
  have "\<forall>n. \<exists>a b. loadModule (Suc n) s' moduleId = Some (Inl (CircularDependency a b), s')"
    if "moduleId \<notin> set (loadedModules s)" "(moduleId, moduleId) \<in> (dep_rel (modules s'))\<^sup>+"
  proof
    fix n
    from p(4) have "map_of (modules s') moduleId = Some module" by simp
    moreover from that(1) p(6) have "moduleId \<notin> set (loadedModules s')" by simp
    ultimately show "\<exists>a b. loadModule (Suc n) s' moduleId = Some (Inl (CircularDependency a b), s')"
      using that(2) by (rule loadModule_cycle_rejected)
  qed
  with r p show ?thesis by blast
qed

text \<open>
  The claim as stated fails: with a registered as depending on b, registering b as
  depending on a completes a cycle, and the registration succeeds and adds b to the
  module map.
\<close>

theorem registerModule_accepts_cycle_counterexample:
  "map fst (modules half_cyclic_system) = [''a''] \<and>
   deps_of (modules half_cyclic_system) ''a'' = [''b''] \<and>
   c_dependencies (example_config ''B'' [''a'']) = Some [''a''] \<and>
   map fst (modules (snd (registerModule half_cyclic_system 2 ''b'' (example_config ''B'' [''a'']))))
     = [''a'', ''b'']"
  by code_simp

theorem registerModule_accepts_cycle_witness:
  "''b'' \<notin> set (loadedModules half_cyclic_system) \<and>
   (''b'', ''b'') \<in> (dep_rel (modules cyclic_system))\<^sup>+ \<and>
   loadModule 1 cyclic_system ''b'' = Some (Inl (CircularDependency ''a'' ''b''), cyclic_system)"
proof -
  have a: "''b'' \<notin> set (loadedModules half_cyclic_system)" by code_simp
  have "deps_of (modules cyclic_system) ''b'' = [''a'']" by code_simp
  then have e1: "(''b'', ''a'') \<in> dep_rel (modules cyclic_system)" by (simp add: dep_rel_def)
  have "deps_of (modules cyclic_system) ''a'' = [''b'']" by code_simp
  then have e2: "(''a'', ''b'') \<in> dep_rel (modules cyclic_system)" by (simp add: dep_rel_def)
  from e1 e2 have cyc: "(''b'', ''b'') \<in> (dep_rel (modules cyclic_system))\<^sup>+" by auto
  have ev: "loadModule 1 cyclic_system ''b''
              = Some (Inl (CircularDependency ''a'' ''b''), cyclic_system)" by code_simp
  from registerModule_accepts_cycle[of half_cyclic_system 2 "''b''" "example_config ''B'' [''a'']"]
  obtain module s' where
    "registerModule half_cyclic_system 2 ''b'' (example_config ''B'' [''a'']) = (module, s')"
    "''b'' \<notin> set (loadedModules half_cyclic_system) \<and> (''b'', ''b'') \<in> (dep_rel (modules s'))\<^sup>+ \<longrightarrow>
        (\<forall>n. \<exists>a b. loadModule (Suc n) s' ''b'' = Some (Inl (CircularDependency a b), s'))"
    by blast
  then have "\<exists>a b. loadModule (Suc 0) cyclic_system ''b''
                = Some (Inl (CircularDependency a b), cyclic_system)"
    using a cyc by (auto simp: cyclic_system_def)
  with a cyc ev show ?thesis by simp
qed

section \<open>Loading\<close>

lemma init_calls_append: "init_calls (xs @ ys) = init_calls xs @ init_calls ys"
  by (induction xs rule: init_calls.induct) auto

lemma visit_reach:
  "visit ms visiting depId st = Inr st' \<Longrightarrow>
     set (snd st') \<subseteq> set (snd st) \<union> (dep_rel ms)\<^sup>* `` {depId}"
  "visit_each ms visiting ds st = Inr st' \<Longrightarrow>
     set (snd st') \<subseteq> set (snd st) \<union> (dep_rel ms)\<^sup>* `` set ds"
proof (induction ms visiting depId st and ms visiting ds st arbitrary: st' and st'
       rule: visit_visit_each.induct)
  case (1 ms visiting depId visited order)
  from 1(2) have notin: "depId \<notin> visiting" by (auto split: if_splits)
  show ?case
  proof (cases "depId \<in> visited")
    case True
    with 1(2) notin show ?thesis by auto
  next
    case False
    with 1(2) notin obtain vis1 ord1 where
      ve: "visit_each ms (insert depId visiting) (deps_of ms depId) (visited, order) = Inr (vis1, ord1)"
      and st': "st' = (insert depId vis1, ord1 @ [depId])"
      by (auto split: sum.splits)
    from 1(1)[OF notin False ve]
    have ih: "set ord1 \<subseteq> set order \<union> (dep_rel ms)\<^sup>* `` set (deps_of ms depId)" by simp
    have "(dep_rel ms)\<^sup>* `` set (deps_of ms depId) \<subseteq> (dep_rel ms)\<^sup>* `` {depId}"
    proof
      fix y assume "y \<in> (dep_rel ms)\<^sup>* `` set (deps_of ms depId)"
      then obtain d where d: "d \<in> set (deps_of ms depId)" "(d, y) \<in> (dep_rel ms)\<^sup>*" by auto
      from d(1) have "(depId, d) \<in> dep_rel ms" by (simp add: dep_rel_def)
      with d(2) show "y \<in> (dep_rel ms)\<^sup>* `` {depId}"
        by (auto intro: converse_rtrancl_into_rtrancl)
    qed
    with ih st' show ?thesis by auto
  qed
next
  case (2 ms visiting st)
  then show ?case by simp
next
  case (3 ms visiting d ds st)
  from 3(3) obtain st1 where v: "visit ms visiting d st = Inr st1"
    and ve: "visit_each ms visiting ds st1 = Inr st'"
    by (auto split: sum.splits)
  from 3(1)[OF v] have a: "set (snd st1) \<subseteq> set (snd st) \<union> (dep_rel ms)\<^sup>* `` {d}" .
  from 3(2)[OF v ve] have b: "set (snd st') \<subseteq> set (snd st1) \<union> (dep_rel ms)\<^sup>* `` set ds" .
  from a b show ?case by auto
qed

lemma getDependencyOrder_reach:
  assumes "getDependencyOrder ms (deps_of ms i) = Inr order"
  shows "set order \<subseteq> (dep_rel ms)\<^sup>+ `` {i}"
proof -
  from assms obtain vis where "visit_each ms {} (deps_of ms i) ({}, []) = Inr (vis, order)"
    by (auto simp: getDependencyOrder_def split: sum.splits)
  from visit_reach(2)[OF this] have "set order \<subseteq> (dep_rel ms)\<^sup>* `` set (deps_of ms i)" by simp
  moreover have "(dep_rel ms)\<^sup>* `` set (deps_of ms i) \<subseteq> (dep_rel ms)\<^sup>+ `` {i}"
  proof
    fix y assume "y \<in> (dep_rel ms)\<^sup>* `` set (deps_of ms i)"
    then obtain d where d: "d \<in> set (deps_of ms i)" "(d, y) \<in> (dep_rel ms)\<^sup>*" by auto
    from d(1) have "(i, d) \<in> dep_rel ms" by (simp add: dep_rel_def)
    with d(2) show "y \<in> (dep_rel ms)\<^sup>+ `` {i}" by auto
  qed
  ultimately show ?thesis by blast
qed

lemma deps_of_update_state:
  "deps_of ms k = dependencies m \<Longrightarrow> deps_of (AList.update k (m\<lparr>state := x\<rparr>) ms) = deps_of ms"
  by (rule ext) (simp add: deps_of_def update_conv')

lemma call_hook_log:
  "call_hook h ev err s = (r, s') \<Longrightarrow>
     modules s' = modules s \<and> moduleStates s' = moduleStates s \<and>
     loadedModules s' = loadedModules s \<and>
     log s' = log s @ (if h = Falsy then [] else [ev]) \<and>
     (r = Inr () \<longleftrightarrow> h \<noteq> Fn Throws)"
  by (auto simp: call_hook_def emit_def split: hook.splits outcome.splits)

lemma load_events:
  "loadModule n s i = Some (r, s') \<Longrightarrow>
     deps_of (modules s') = deps_of (modules s) \<and>
     (\<exists>evs. log s' = log s @ evs \<and> set (init_calls evs) \<subseteq> (dep_rel (modules s))\<^sup>* `` {i})"
  "checkDependencies n s i = Some (r2, s') \<Longrightarrow>
     deps_of (modules s') = deps_of (modules s) \<and>
     (\<exists>evs. log s' = log s @ evs \<and> set (init_calls evs) \<subseteq> (dep_rel (modules s))\<^sup>+ `` {i})"
  "load_each n s ds = Some (r2, s') \<Longrightarrow>
     deps_of (modules s') = deps_of (modules s) \<and>
     (\<exists>evs. log s' = log s @ evs \<and> set (init_calls evs) \<subseteq> (dep_rel (modules s))\<^sup>* `` set ds)"
proof (induction n s i and n s i and n s ds arbitrary: r s' and r2 s' and r2 s'
       rule: loadModule_checkDependencies_load_each.induct)
  case (1 s moduleId)
  then show ?case by simp
next
  case (2 n s moduleId)
  show ?case
  proof (cases "map_of (modules s) moduleId")
    case None
    with 2(2) show ?thesis by simp
  next
    case (Some m)
    show ?thesis
    proof (cases "moduleId \<in> set (loadedModules s)")
      case True
      with Some 2(2) show ?thesis by simp
    next
      case False
      from 2(2) Some False obtain r1 s1 where cd: "checkDependencies n s moduleId = Some (r1, s1)"
        by (auto split: option.splits)
      from 2(1)[OF Some False cd] obtain ev1 where
        d1: "deps_of (modules s1) = deps_of (modules s)" and
        l1: "log s1 = log s @ ev1" "set (init_calls ev1) \<subseteq> (dep_rel (modules s))\<^sup>+ `` {moduleId}"
        by blast
      have sub: "(dep_rel (modules s))\<^sup>+ `` {moduleId} \<subseteq> (dep_rel (modules s))\<^sup>* `` {moduleId}"
        by auto
      show ?thesis
      proof (cases r1)
        case (Inl e)
        with 2(2) Some False cd have "s' = s1" by simp
        with d1 l1 sub show ?thesis by blast
      next
        case (Inr u)
        obtain rh s2 where ch: "call_hook (init m) (InitCalled moduleId) (HookThrew moduleId) s1 = (rh, s2)"
          by (cases "call_hook (init m) (InitCalled moduleId) (HookThrew moduleId) s1")
        from call_hook_log[OF ch] have h2: "modules s2 = modules s1"
          "log s2 = log s1 @ (if init m = Falsy then [] else [InitCalled moduleId])"
          by simp_all
        let ?ev2 = "ev1 @ (if init m = Falsy then [] else [InitCalled moduleId])"
        have l2: "log s2 = log s @ ?ev2" using l1(1) h2(2) by simp
        have i2: "set (init_calls ?ev2) \<subseteq> (dep_rel (modules s))\<^sup>* `` {moduleId}"
          using l1(2) sub by (auto simp: init_calls_append)
        show ?thesis
        proof (cases rh)
          case (Inl e)
          with 2(2) Some False cd Inr ch have "s' = s2" by simp
          with d1 h2(1) l2 i2 show ?thesis by auto
        next
          case (Inr u')
          let ?m' = "m\<lparr>state := Loaded\<rparr>"
          from Inr 2(2) Some False cd \<open>r1 = Inr u\<close> ch
          have s': "s' = emit (ModuleLoaded moduleId ?m')
                  (s2\<lparr>loadedModules := set_add moduleId (loadedModules s2),
                      moduleStates := AList.update moduleId Loaded (moduleStates s2),
                      modules := AList.update moduleId ?m' (modules s2)\<rparr>)"
            by (simp add: Let_def)
          have "deps_of (modules s2) moduleId = dependencies m"
            using h2(1) d1 Some by (simp add: deps_of_def)
          then have "deps_of (AList.update moduleId ?m' (modules s2)) = deps_of (modules s2)"
            by (rule deps_of_update_state)
          with s' h2(1) d1 have d': "deps_of (modules s') = deps_of (modules s)"
            by (simp add: emit_def)
          have "log s' = log s @ (?ev2 @ [ModuleLoaded moduleId ?m'])"
            using s' l2 by (simp add: emit_def)
          moreover have "set (init_calls (?ev2 @ [ModuleLoaded moduleId ?m']))
                           \<subseteq> (dep_rel (modules s))\<^sup>* `` {moduleId}"
            using i2 by (simp add: init_calls_append)
          ultimately show ?thesis using d' by blast
        qed
      qed
    qed
  qed
next
  case (3 n s moduleId)
  show ?case
  proof (cases "map_of (modules s) moduleId")
    case None
    with 3(2) show ?thesis by simp
  next
    case (Some m)
    show ?thesis
    proof (cases "checkCircular (modules s) {} moduleId moduleId {}")
      case (Inl e)
      with 3(2) Some show ?thesis by (simp del: checkCircular.simps)
    next
      case (Inr V)
      show ?thesis
      proof (cases "getDependencyOrder (modules s) (dependencies m)")
        case (Inl e)
        with 3(2) Some Inr show ?thesis by (simp del: checkCircular.simps)
      next
        case (Inr order)
        with 3(2) Some \<open>checkCircular (modules s) {} moduleId moduleId {} = Inr V\<close>
        have le: "load_each n s order = Some (r2, s')" by (simp del: checkCircular.simps)
        from 3(1)[OF Some \<open>checkCircular (modules s) {} moduleId moduleId {} = Inr V\<close> Inr le]
        obtain evs where d: "deps_of (modules s') = deps_of (modules s)"
          and l: "log s' = log s @ evs"
            "set (init_calls evs) \<subseteq> (dep_rel (modules s))\<^sup>* `` set order"
          by blast
        from Some have "deps_of (modules s) moduleId = dependencies m" by (simp add: deps_of_def)
        with Inr have "set order \<subseteq> (dep_rel (modules s))\<^sup>+ `` {moduleId}"
          using getDependencyOrder_reach[of "modules s" moduleId order] by simp
        then have "(dep_rel (modules s))\<^sup>* `` set order \<subseteq> (dep_rel (modules s))\<^sup>+ `` {moduleId}"
          by auto
        with d l show ?thesis by blast
      qed
    qed
  qed
next
  case (4 n s)
  then show ?case by simp
next
  case (5 n s depId rest)
  show ?case
  proof (cases "depId \<in> set (loadedModules s)")
    case True
    with 5(4) have "load_each n s rest = Some (r2, s')" by simp
    from 5(1)[OF True this] obtain evs where
      "deps_of (modules s') = deps_of (modules s)" "log s' = log s @ evs"
      "set (init_calls evs) \<subseteq> (dep_rel (modules s))\<^sup>* `` set rest"
      by blast
    moreover have "(dep_rel (modules s))\<^sup>* `` set rest
                     \<subseteq> (dep_rel (modules s))\<^sup>* `` set (depId # rest)"
      by auto
    ultimately show ?thesis by blast
  next
    case False
    with 5(4) obtain r1 s1 where lm: "loadModule n s depId = Some (r1, s1)"
      by (auto split: option.splits)
    from 5(2)[OF False lm] obtain ev1 where
      d1: "deps_of (modules s1) = deps_of (modules s)" and
      l1: "log s1 = log s @ ev1" "set (init_calls ev1) \<subseteq> (dep_rel (modules s))\<^sup>* `` {depId}"
      by blast
    show ?thesis
    proof (cases r1)
      case (Inl e)
      with 5(4) False lm have "s' = s1" by simp
      moreover have "(dep_rel (modules s))\<^sup>* `` {depId}
                       \<subseteq> (dep_rel (modules s))\<^sup>* `` set (depId # rest)"
        by auto
      ultimately show ?thesis using d1 l1 by blast
    next
      case (Inr m)
      with 5(4) False lm have le: "load_each n s1 rest = Some (r2, s')" by simp
      from 5(3)[OF False lm _ _ le] Inr obtain ev2 where
        d2: "deps_of (modules s') = deps_of (modules s1)" and
        l2: "log s' = log s1 @ ev2" "set (init_calls ev2) \<subseteq> (dep_rel (modules s1))\<^sup>* `` set rest"
        by auto
      from d1 have "dep_rel (modules s1) = dep_rel (modules s)" by (simp add: dep_rel_def)
      with l2(2) have i2: "set (init_calls ev2) \<subseteq> (dep_rel (modules s))\<^sup>* `` set rest" by simp
      have "deps_of (modules s') = deps_of (modules s)" using d1 d2 by simp
      moreover have "log s' = log s @ (ev1 @ ev2)" using l1(1) l2(1) by simp
      moreover have "set (init_calls (ev1 @ ev2))
                       \<subseteq> (dep_rel (modules s))\<^sup>* `` set (depId # rest)"
        using l1(2) i2 by (auto simp: init_calls_append)
      ultimately show ?thesis by blast
    qed
  qed
qed



text \<open>
  The fuel only bounds the depth of the recursion: more fuel never changes a result, and
  every call returns once the fuel exceeds the number of ids reachable from the module
  (after a passed cycle check each dependency reaches strictly fewer ids).
\<close>

lemma load_fuel_Suc:
  "loadModule n s i = Some x \<Longrightarrow> loadModule (Suc n) s i = Some x"
  "checkDependencies n s i = Some y \<Longrightarrow> checkDependencies (Suc n) s i = Some y"
  "load_each n s ds = Some y \<Longrightarrow> load_each (Suc n) s ds = Some y"
proof (induction n s i and n s i and n s ds arbitrary: x and y and y
       rule: loadModule_checkDependencies_load_each.induct)
  case (1 s moduleId)
  then show ?case by simp
next
  case (2 n s moduleId)
  show ?case
  proof (cases "map_of (modules s) moduleId")
    case None
    with 2(2) show ?thesis by simp
  next
    case (Some m)
    show ?thesis
    proof (cases "moduleId \<in> set (loadedModules s)")
      case True
      with Some 2(2) show ?thesis by simp
    next
      case False
      from 2(2) Some False obtain c where cd: "checkDependencies n s moduleId = Some c"
        by (auto simp del: checkDependencies.simps split: option.splits)
      from 2(1)[OF Some False cd] have cd': "checkDependencies (Suc n) s moduleId = Some c" .
      have "loadModule (Suc (Suc n)) s moduleId = loadModule (Suc n) s moduleId"
        using Some False cd cd'
        by (simp del: checkDependencies.simps)
      with 2(2) show ?thesis by simp
    qed
  qed
next
  case (3 n s moduleId)
  show ?case
  proof (cases "map_of (modules s) moduleId")
    case None
    with 3(2) show ?thesis by simp
  next
    case (Some m)
    show ?thesis
    proof (cases "checkCircular (modules s) {} moduleId moduleId {}")
      case (Inl e)
      with 3(2) Some show ?thesis by (simp del: checkCircular.simps)
    next
      case (Inr V)
      note cc = this
      show ?thesis
      proof (cases "getDependencyOrder (modules s) (dependencies m)")
        case (Inl e)
        with 3(2) Some cc show ?thesis by (simp del: checkCircular.simps)
      next
        case (Inr order)
        with 3(2) Some cc have "load_each n s order = Some y" by (simp del: checkCircular.simps)
        from 3(1)[OF Some cc Inr this] have "load_each (Suc n) s order = Some y" .
        with Some cc Inr show ?thesis by (simp del: checkCircular.simps)
      qed
    qed
  qed
next
  case (4 n s)
  then show ?case by simp
next
  case (5 n s depId rest)
  show ?case
  proof (cases "depId \<in> set (loadedModules s)")
    case True
    with 5(4) have "load_each n s rest = Some y" by simp
    from 5(1)[OF True this] True show ?thesis by simp
  next
    case False
    with 5(4) obtain r1 s1 where lm: "loadModule n s depId = Some (r1, s1)"
      by (auto split: option.splits)
    from 5(2)[OF False lm] have lm': "loadModule (Suc n) s depId = Some (r1, s1)" .
    show ?thesis
    proof (cases r1)
      case (Inl e)
      with 5(4) False lm have "y = (Inl e, s1)" by simp
      with False lm' Inl show ?thesis by (simp del: loadModule.simps)
    next
      case (Inr m)
      with 5(4) False lm have le: "load_each n s1 rest = Some y" by simp
      from 5(3)[OF False lm _ _ le] Inr have "load_each (Suc n) s1 rest = Some y" by simp
      with False lm' Inr show ?thesis by (simp del: loadModule.simps)
    qed
  qed
qed

lemma load_fuel_mono:
  assumes "n \<le> n'"
  shows "loadModule n s i = Some x \<Longrightarrow> loadModule n' s i = Some x"
    and "load_each n s ds = Some y \<Longrightarrow> load_each n' s ds = Some y"
  using assms
proof (induction n' )
  case 0
  { case 1 then show ?case by simp }
  { case 2 then show ?case by simp }
next
  case (Suc n')
  { case 1
    show ?case
    proof (cases "n = Suc n'")
      case True with 1 show ?thesis by simp
    next
      case False
      with 1(2) have "n \<le> n'" by simp
      from Suc(1)[OF 1(1) this] show ?thesis by (rule load_fuel_Suc(1))
    qed }
  { case 2
    show ?case
    proof (cases "n = Suc n'")
      case True with 2 show ?thesis by simp
    next
      case False
      with 2(2) have "n \<le> n'" by simp
      from Suc(2)[OF 2(1) this] show ?thesis by (rule load_fuel_Suc(3))
    qed }
qed


lemma finite_reach: "finite ((dep_rel ms)\<^sup>* `` {i})"
proof -
  have "Range (dep_rel ms) \<subseteq> (\<Union>p \<in> set ms. set (dependencies (snd p)))"
  proof
    fix b assume "b \<in> Range (dep_rel ms)"
    then obtain a where "b \<in> set (deps_of ms a)" by (auto simp: dep_rel_def)
    then obtain m where "map_of ms a = Some m" "b \<in> set (dependencies m)"
      by (cases "map_of ms a") (auto simp: deps_of_def)
    then have "(a, m) \<in> set ms" "b \<in> set (dependencies m)" by (auto dest: map_of_SomeD)
    then show "b \<in> (\<Union>p \<in> set ms. set (dependencies (snd p)))" by force
  qed
  then have "finite (Range (dep_rel ms))" by (rule finite_subset) simp
  moreover have "(dep_rel ms)\<^sup>* `` {i} \<subseteq> insert i (Range (dep_rel ms))"
    by (auto elim: rtranclE)
  ultimately show ?thesis by (auto intro: finite_subset)
qed

lemma load_each_returns:
  assumes "\<And>d s'. d \<in> set ds \<Longrightarrow> dep_rel (modules s') = R \<Longrightarrow> \<exists>n. loadModule n s' d \<noteq> None"
  shows "dep_rel (modules s) = R \<Longrightarrow> \<exists>n. load_each n s ds \<noteq> None"
  using assms
proof (induction ds arbitrary: s)
  case Nil
  then show ?case by simp
next
  case (Cons d rest)
  have rest: "\<And>s0. dep_rel (modules s0) = R \<Longrightarrow> \<exists>n. load_each n s0 rest \<noteq> None"
    using Cons.IH Cons.prems(2) by simp
  show ?case
  proof (cases "d \<in> set (loadedModules s)")
    case True
    from rest[OF Cons.prems(1)] obtain n where "load_each n s rest \<noteq> None" by blast
    with True have "load_each n s (d # rest) \<noteq> None" by simp
    then show ?thesis by blast
  next
    case False
    from Cons.prems(2)[of d s] Cons.prems(1) obtain n1 r1 s1 where
      lm: "loadModule n1 s d = Some (r1, s1)" by auto
    show ?thesis
    proof (cases r1)
      case (Inl e)
      with False lm have "load_each n1 s (d # rest) \<noteq> None" by simp
      then show ?thesis by blast
    next
      case (Inr m)
      from load_events(1)[OF lm] have "deps_of (modules s1) = deps_of (modules s)" by simp
      then have "dep_rel (modules s1) = R" using Cons.prems(1) by (simp add: dep_rel_def)
      from rest[OF this] obtain n2 y where le: "load_each n2 s1 rest = Some y" by auto
      have "loadModule (max n1 n2) s d = Some (r1, s1)"
        using lm by (rule load_fuel_mono(1)[rotated]) simp
      moreover have "load_each (max n1 n2) s1 rest = Some y"
        using le by (rule load_fuel_mono(2)[rotated]) simp
      ultimately have "load_each (max n1 n2) s (d # rest) = Some y"
        using False Inr by (simp del: loadModule.simps)
      then have "load_each (max n1 n2) s (d # rest) \<noteq> None"
        by (simp del: load_each.simps)
      then show ?thesis by blast
    qed
  qed
qed

lemma loadModule_returns_aux:
  "dep_rel (modules s) = R \<Longrightarrow> \<exists>n. loadModule n s i \<noteq> None"
proof (induction "card (R\<^sup>* `` {i})" arbitrary: i s rule: less_induct)
  case less
  note R = less.prems
  show ?case
  proof (cases "map_of (modules s) i")
    case None
    then have "loadModule (Suc 0) s i \<noteq> None" by simp
    then show ?thesis by blast
  next
    case (Some m)
    show ?thesis
    proof (cases "i \<in> set (loadedModules s)")
      case True
      with Some have "loadModule (Suc 0) s i \<noteq> None" by simp
      then show ?thesis by blast
    next
      case False
      have "\<exists>n. checkDependencies n s i \<noteq> None"
      proof (cases "checkCircular (modules s) {} i i {}")
        case (Inl e)
        with Some have "checkDependencies 0 s i \<noteq> None" by (simp del: checkCircular.simps)
        then show ?thesis by blast
      next
        case (Inr V)
        note cc = this
        have nocyc: "(i, i) \<notin> R\<^sup>+"
          using checkCircular_ok_no_cycle[OF cc] R by simp
        show ?thesis
        proof (cases "getDependencyOrder (modules s) (dependencies m)")
          case (Inl e)
          with Some cc have "checkDependencies 0 s i \<noteq> None" by (simp del: checkCircular.simps)
          then show ?thesis by blast
        next
          case (Inr order)
          from Some have "deps_of (modules s) i = dependencies m" by (simp add: deps_of_def)
          with Inr have sub: "set order \<subseteq> R\<^sup>+ `` {i}"
            using getDependencyOrder_reach[of "modules s" i order] R by simp
          have "\<exists>n. loadModule n s' d \<noteq> None"
            if d: "d \<in> set order" and s': "dep_rel (modules s') = R" for d s'
          proof -
            from d sub have di: "(i, d) \<in> R\<^sup>+" by auto
            have "R\<^sup>* `` {d} \<subseteq> R\<^sup>* `` {i}"
              using di by (auto dest: trancl_into_rtrancl intro: rtrancl_trans)
            moreover have "i \<notin> R\<^sup>* `` {d}"
            proof
              assume "i \<in> R\<^sup>* `` {d}"
              then have "(d, i) \<in> R\<^sup>*" by simp
              with di have "(i, i) \<in> R\<^sup>+" by (rule trancl_rtrancl_trancl)
              with nocyc show False by simp
            qed
            moreover have "i \<in> R\<^sup>* `` {i}" by simp
            ultimately have "R\<^sup>* `` {d} \<subset> R\<^sup>* `` {i}" by blast
            moreover have "finite (R\<^sup>* `` {i})" using finite_reach[of "modules s" i] R by simp
            ultimately have "card (R\<^sup>* `` {d}) < card (R\<^sup>* `` {i})"
              by (rule psubset_card_mono[rotated])
            from less.hyps[OF this s'] show ?thesis .
          qed
          from load_each_returns[of order R s, OF this R]
          obtain n where "load_each n s order \<noteq> None" by blast
          with Some cc Inr have "checkDependencies n s i \<noteq> None"
            by (simp del: checkCircular.simps)
          then show ?thesis by blast
        qed
      qed
      then obtain n c where "checkDependencies n s i = Some c" by auto
      with Some False have "loadModule (Suc n) s i \<noteq> None"
        by (auto simp del: checkDependencies.simps simp add: Let_def
            split: prod.splits sum.splits)
      then show ?thesis by blast
    qed
  qed
qed

lemma loadModule_returns:
  "\<exists>n. \<forall>n' \<ge> n. \<exists>r s'. loadModule n' s i = Some (r, s')"
proof -
  from loadModule_returns_aux[of s "dep_rel (modules s)" i]
  obtain n r s' where "loadModule n s i = Some (r, s')" by auto
  then have "\<forall>n' \<ge> n. loadModule n' s i = Some (r, s')"
    by (auto intro: load_fuel_mono(1))
  then show ?thesis by blast
qed






section \<open>The invariant of the loaded set\<close>

text \<open>
  C9. Every id in the loaded set is a key of the module map: the invariant holds in the
  initial state and is preserved by registerModule, loadModule, unloadModule,
  handleModuleInstall, handleModuleUninstall, handleModuleReload and restartSystem,
  whether the operation returns normally or throws. loadModule does return: from some
  fuel on it yields a result, in a state that satisfies the invariant.
\<close>

theorem loaded_registered_invariant:
  assumes "loaded_registered s"
  shows "loaded_registered empty_system \<and>
         loaded_registered (snd (registerModule s now moduleId moduleConfig)) \<and>
         (\<forall>r s'. loadModule n s moduleId = Some (r, s') \<longrightarrow> loaded_registered s') \<and>
         (\<exists>n0. \<forall>n' \<ge> n0. \<exists>r s'. loadModule n' s moduleId = Some (r, s') \<and>
                                  loaded_registered s') \<and>
         loaded_registered (snd (unloadModule s moduleId)) \<and>
         (\<forall>r s'. handleModuleInstall n s now data = Some (r, s') \<longrightarrow> loaded_registered s') \<and>
         loaded_registered (snd (handleModuleUninstall s data)) \<and>
         (\<forall>r s'. handleModuleReload n s now data = Some (r, s') \<longrightarrow> loaded_registered s') \<and>
         loaded_registered (restartSystem s)"
proof (intro conjI allI impI)
  show "loaded_registered empty_system"
    by (simp add: loaded_registered_def empty_system_def)
  show "loaded_registered (snd (registerModule s now moduleId moduleConfig))"
    using assms by (rule registerModule_inv)
  show "loaded_registered (snd (unloadModule s moduleId))"
    using assms unloadModule_inv[of s moduleId] by (cases "unloadModule s moduleId") auto
  show "loaded_registered (snd (handleModuleUninstall s data))"
    using assms handleModuleUninstall_inv[of s data]
    by (cases "handleModuleUninstall s data") auto
  show "loaded_registered (restartSystem s)" by (rule restartSystem_inv)
  from loadModule_returns[of s moduleId] obtain n0 where
    "\<forall>n' \<ge> n0. \<exists>r s'. loadModule n' s moduleId = Some (r, s')" by blast
  then have "\<forall>n' \<ge> n0. \<exists>r s'. loadModule n' s moduleId = Some (r, s') \<and> loaded_registered s'"
    using assms by (blast dest: load_inv(1))
  then show "\<exists>n0. \<forall>n' \<ge> n0. \<exists>r s'. loadModule n' s moduleId = Some (r, s') \<and>
                                  loaded_registered s'" by blast
next
  fix r s' assume "loadModule n s moduleId = Some (r, s')"
  then show "loaded_registered s'" using assms by (rule load_inv(1))
next
  fix r s' assume "handleModuleReload n s now data = Some (r, s')"
  then show "loaded_registered s'" using assms by (rule handleModuleReload_inv)
next
  fix r s' assume h: "handleModuleInstall n s now data = Some (r, s')"
  show "loaded_registered s'"
  proof (cases "d_moduleConfig data")
    case None
    with h assms show ?thesis by (simp add: handleModuleInstall_def)
  next
    case (Some c)
    with h obtain r1 where
      "loadModule n (snd (registerModule s now (d_moduleId data) c)) (d_moduleId data) = Some (r1, s')"
      by (auto simp: handleModuleInstall_def split: option.splits sum.splits)
    then show ?thesis using registerModule_inv[OF assms] by (rule load_inv(1))
  qed
qed

theorem loaded_registered_invariant_witness:
  "loaded_registered voice_loaded_system \<and>
   loadedModules voice_loaded_system = [''audio'', ''voice''] \<and>
   loaded_registered (restartSystem voice_loaded_system) \<and>
   loaded_registered
     (snd (handleModuleUninstall voice_loaded_system
        \<lparr>d_moduleId = ''audio'', d_moduleConfig = None\<rparr>)) \<and>
   loaded_registered (snd (unloadModule voice_loaded_system ''voice''))"
proof -
  have a: "loaded_registered voice_loaded_system" by code_simp
  have b: "loadedModules voice_loaded_system = [''audio'', ''voice'']" by code_simp
  from loaded_registered_invariant[OF a, of 0 "''voice''" empty_config 0
      "\<lparr>d_moduleId = ''audio'', d_moduleConfig = None\<rparr>"] a b
  show ?thesis by simp
qed

end
